theory Spec2Isabelle
  imports Main "HOL-Library.Word" "HOL-Library.Monad_Syntax"
begin

unbundle bit_operations_syntax

section \<open>The SwissTable-style hash map of hash.h\<close>

text \<open>
  The development embeds the functions and macros of \<^verbatim>\<open>hash.h\<close>. Bytes and keys are
  machine words. Values of type \<^verbatim>\<open>size_t\<close> (64 bits on the only supported platform)
  are natural numbers, and every \<^verbatim>\<open>size_t\<close> operation that can leave the range is
  written with its wrap-around (\<open>sz_add\<close>, \<open>sz_sub\<close>, \<open>sz_mul\<close>).

  A loop without a bound in the source (\<^verbatim>\<open>for(;;)\<close>, \<^verbatim>\<open>while\<close>) is a
  \<^theory_text>\<open>partial_function (option)\<close>: the value \<open>None\<close> says that the loop never returns.
  An access through a null handle is the value \<open>Fault\<close>.
\<close>

subsection \<open>Machine integers\<close>

type_synonym u8 = "8 word"
type_synonym u64 = "64 word"

definition sz_add :: "nat \<Rightarrow> nat \<Rightarrow> nat" where
  "sz_add a b = (a + b) mod 2 ^ 64"

definition sz_sub :: "nat \<Rightarrow> nat \<Rightarrow> nat" where
  "sz_sub a b = (a + 2 ^ 64 - b) mod 2 ^ 64"

definition sz_mul :: "nat \<Rightarrow> nat \<Rightarrow> nat" where
  "sz_mul a b = (a * b) mod 2 ^ 64"

subsection \<open>The memory image\<close>

text \<open>
  The image is \<^verbatim>\<open>| metadata[] | keys[] | info | values[] |\<close>. The three fields of
  \<^verbatim>\<open>hash__info_t\<close> are \<open>info_size\<close>, \<open>info_capacity\<close> and \<open>info_val_size\<close>. A handle is
  the user's pointer to \<open>vals\<close>; the null pointer is \<open>None\<close>. A pointer into the values
  array is the index of its slot.
\<close>

record 'v hash_map =
  meta :: "u8 list"
  keys :: "u64 list"
  info_size :: nat
  info_capacity :: nat
  info_val_size :: nat
  vals :: "'v list"

type_synonym 'v handle = "'v hash_map option"

datatype 'a res = Fault | Ok 'a

definition HASH__START_CAPACITY :: nat where
  "HASH__START_CAPACITY = 16"

definition HASH__FREE :: u8 where
  "HASH__FREE = 0x00"

definition HASH__TOMB :: u8 where
  "HASH__TOMB = 0x01"

definition hash_size :: "'v handle \<Rightarrow> nat" where
  "hash_size h = (case h of None \<Rightarrow> 0 | Some m \<Rightarrow> info_size m)"

definition hash_capacity :: "'v handle \<Rightarrow> nat" where
  "hash_capacity h = (case h of None \<Rightarrow> 0 | Some m \<Rightarrow> info_capacity m)"

definition hash_is_full :: "u8 \<Rightarrow> bool" where
  "hash_is_full b = (b AND 0x80 = 0x80)"

definition hash_is_free :: "u8 \<Rightarrow> bool" where
  "hash_is_free b = (b = 0)"

definition hash__hash57 :: "u64 \<Rightarrow> u64" where
  "hash__hash57 h = h AND 0x01FFFFFFFFFFFFFF"

definition hash__hash7 :: "u64 \<Rightarrow> u64" where
  "hash__hash7 h = drop_bit 57 h AND 0x7F"

subsection \<open>Allocation\<close>

text \<open>
  \<^verbatim>\<open>hash__aligned_allocation\<close> is the C runtime's \<^verbatim>\<open>_aligned_malloc\<close>. It is a
  parameter \<open>al\<close> of the model: given the number of bytes requested it fails (\<open>None\<close>,
  the null pointer) or returns a block. The block's content is indeterminate in C; the
  allocator of the model supplies it, as the key and the value found at each slot of the
  fresh block. \<^verbatim>\<open>sizeof(hash__info_t)\<close> is 24.
\<close>

type_synonym 'v allocator = "nat \<Rightarrow> ((nat \<Rightarrow> u64) \<times> (nat \<Rightarrow> 'v)) option"

definition hash__malloc ::
  "'v allocator \<Rightarrow> nat \<Rightarrow> nat \<Rightarrow> ((nat \<Rightarrow> u64) \<times> (nat \<Rightarrow> 'v)) option" where
  "hash__malloc al capacity val_size =
     (let bytes = sz_add (sz_add (sz_add (sz_mul 1 capacity) (sz_mul 8 capacity)) 24)
                    (sz_mul val_size capacity)
      in al bytes)"

text \<open>
  \<open>hash__image\<close> is the block after the \<^verbatim>\<open>memset\<close> of its metadata and the three
  assignments to its info structure, shared by \<^verbatim>\<open>hash__init\<close> and \<^verbatim>\<open>hash__resize\<close>.
\<close>

definition hash__image ::
  "(nat \<Rightarrow> u64) \<times> (nat \<Rightarrow> 'v) \<Rightarrow> nat \<Rightarrow> nat \<Rightarrow> nat \<Rightarrow> 'v hash_map" where
  "hash__image blk ncapacity sz val_size =
     \<lparr>meta = replicate ncapacity HASH__FREE,
      keys = map (fst blk) [0..<ncapacity],
      info_size = sz,
      info_capacity = ncapacity,
      info_val_size = val_size,
      vals = map (snd blk) [0..<ncapacity]\<rparr>"

text \<open>The argument \<open>vsz\<close> is \<^verbatim>\<open>sizeof(*(map))\<close>, known to the macro from the pointer's type.\<close>

definition hash__init :: "'v allocator \<Rightarrow> nat \<Rightarrow> 'v handle \<Rightarrow> 'v handle" where
  "hash__init al vsz h =
     (if h = None then
        (case hash__malloc al HASH__START_CAPACITY vsz of
           Some blk \<Rightarrow> Some (hash__image blk HASH__START_CAPACITY 0 vsz)
         | None \<Rightarrow> h)
      else h)"

subsection \<open>The hash mixer\<close>

definition hash__seed :: u64 where
  "hash__seed = 0x12345678ABCDEF00"

definition hash__hash :: "u64 \<Rightarrow> u64 \<Rightarrow> u64" where
  "hash__hash seed val =
     (let v1 = val XOR seed;
          v2 = v1 XOR drop_bit 33 v1;
          v3 = v2 * 0xff51afd7ed558ccd;
          v4 = v3 XOR drop_bit 33 v3;
          v5 = v4 * 0xc4ceb9fe1a85ec53
      in v5 XOR drop_bit 33 v5)"

subsection \<open>The SSE2 intrinsics\<close>

text \<open>
  A 128-bit register is the list of its sixteen byte lanes, lane 0 first. The bitmaps
  that \<^verbatim>\<open>_mm_movemask_epi8\<close> returns are below \<open>2 ^ 16\<close>, so the \<^verbatim>\<open>int\<close>
  variables holding them are natural numbers. \<^verbatim>\<open>_BitScanForward\<close> searches the 32 bits
  of its argument from the least significant one.
\<close>

type_synonym m128i = "u8 list"

definition mm_load_si128 :: "u8 list \<Rightarrow> nat \<Rightarrow> m128i" where
  "mm_load_si128 mem i = take 16 (drop i mem)"

definition mm_set1_epi8 :: "u8 \<Rightarrow> m128i" where
  "mm_set1_epi8 b = replicate 16 b"

definition mm_setzero_si128 :: m128i where
  "mm_setzero_si128 = replicate 16 0"

definition mm_cmpeq_epi8 :: "m128i \<Rightarrow> m128i \<Rightarrow> m128i" where
  "mm_cmpeq_epi8 a b = map2 (\<lambda>x y. if x = y then 0xFF else 0x00) a b"

definition mm_and_si128 :: "m128i \<Rightarrow> m128i \<Rightarrow> m128i" where
  "mm_and_si128 a b = map2 (\<lambda>x y. x AND y) a b"

definition mm_movemask_epi8 :: "m128i \<Rightarrow> nat" where
  "mm_movemask_epi8 a = horner_sum of_bool 2 (map (\<lambda>x. bit x 7) a)"

definition BitScanForward :: "nat \<Rightarrow> nat option" where
  "BitScanForward msk = find (\<lambda>j. bit msk j) [0..<32]"

subsection \<open>Rehash and resize\<close>

partial_function (option) hash__rehash_probe :: "u8 list \<Rightarrow> nat \<Rightarrow> nat \<Rightarrow> nat option" where
  "hash__rehash_probe nbase ncap idx =
     (if \<not> hash_is_free (nbase ! idx)
      then hash__rehash_probe nbase ncap (sz_add idx 1 AND sz_sub ncap 1)
      else Some idx)"

declare hash__rehash_probe.simps [code]

text \<open>The body of the \<^verbatim>\<open>for\<close> loop of \<^verbatim>\<open>hash__rehash\<close>, at slot \<open>i\<close> of the old image.\<close>

definition hash__rehash_slot ::
  "u64 \<Rightarrow> 'v hash_map \<Rightarrow> nat \<Rightarrow> 'v hash_map \<Rightarrow> 'v hash_map option" where
  "hash__rehash_slot seed m i nm =
     (if hash_is_full (meta m ! i) then
        (let key = keys m ! i;
             hash = hash__hash seed key;
             idx0 = unat (hash__hash57 hash) AND sz_sub (info_capacity nm div 16) 1;
             idx1 = sz_mul idx0 16
         in do {
              idx \<leftarrow> hash__rehash_probe (meta nm) (info_capacity nm) idx1;
              Some (nm\<lparr>meta := (meta nm)[idx := meta m ! i],
                       keys := (keys nm)[idx := keys m ! i],
                       vals := (vals nm)[idx := vals m ! i]\<rparr>)
            })
      else Some nm)"

primrec hash__rehash_loop ::
  "u64 \<Rightarrow> 'v hash_map \<Rightarrow> nat list \<Rightarrow> 'v hash_map \<Rightarrow> 'v hash_map option" where
  "hash__rehash_loop seed m [] nm = Some nm"
| "hash__rehash_loop seed m (i # js) nm =
     (case hash__rehash_slot seed m i nm of
        None \<Rightarrow> None
      | Some nm' \<Rightarrow> hash__rehash_loop seed m js nm')"

definition hash__rehash :: "u64 \<Rightarrow> 'v hash_map \<Rightarrow> 'v hash_map \<Rightarrow> 'v hash_map option" where
  "hash__rehash seed m nm = hash__rehash_loop seed m [0..<info_capacity m] nm"

text \<open>
  When the allocation fails the handle keeps the old image. The old image is released
  after the rehash; the model has nothing to record for that.

  The model forms the new image, of \<open>ncapacity\<close> slots, from the block returned, whatever
  the number of bytes that was asked for. The code does the same where that number did not
  wrap in \<^verbatim>\<open>hash__malloc\<close>, that is where \<open>hash__image_bytes ncapacity val_size\<close> (defined
  with the notions of the verification) is below \<open>2\<^sup>6\<^sup>4\<close>. After a wrap the block is
  smaller than the image and the \<^verbatim>\<open>memset\<close> of the code writes past it, which the model
  does not follow: a statement that a growth returns a table holds of the code under the
  condition that the number does not wrap.
\<close>

definition hash__resize ::
  "u64 \<Rightarrow> 'v allocator \<Rightarrow> 'v hash_map \<Rightarrow> nat \<Rightarrow> 'v hash_map option" where
  "hash__resize seed al m ncapacity =
     (let val_size = info_val_size m in
      case hash__malloc al ncapacity val_size of
        Some blk \<Rightarrow> hash__rehash seed m (hash__image blk ncapacity (info_size m) val_size)
      | None \<Rightarrow> Some m)"

subsection \<open>Reserve\<close>

partial_function (option) hash_reserve_true_cap :: "nat \<Rightarrow> nat \<Rightarrow> nat option" where
  "hash_reserve_true_cap true_cap cap =
     (if true_cap < cap
      then hash_reserve_true_cap (push_bit 1 true_cap mod 2 ^ 64) cap
      else Some true_cap)"

declare hash_reserve_true_cap.simps [code]

text \<open>
  With a null handle whose initialisation failed and a positive request, the macro
  reaches \<^verbatim>\<open>hash__resize\<close>, which reads the info structure of the null handle.
\<close>

definition hash_reserve ::
  "u64 \<Rightarrow> 'v allocator \<Rightarrow> nat \<Rightarrow> 'v handle \<Rightarrow> nat \<Rightarrow> 'v handle res option" where
  "hash_reserve seed al vsz h capacity =
     (let h1 = (if h = None then hash__init al vsz h else h);
          cap = capacity
      in if cap > hash_capacity h1 then
           do {
             true_cap \<leftarrow> hash_reserve_true_cap 1 cap;
             case h1 of
               None \<Rightarrow> Some Fault
             | Some m \<Rightarrow> map_option (\<lambda>m'. Ok (Some m')) (hash__resize seed al m true_cap)
           }
         else Some (Ok h1))"

subsection \<open>The match probe\<close>

text \<open>
  The inner \<^verbatim>\<open>while\<close> loop of \<^verbatim>\<open>hash__get_idx\<close> walks the bitmap of the lanes equal
  to the tag byte: \<open>Some idx\<close> is the slot whose key is the one looked for.
\<close>

function hash__scan_match :: "u64 list \<Rightarrow> u64 \<Rightarrow> nat \<Rightarrow> nat \<Rightarrow> nat option" where
  "hash__scan_match ks key i match =
     (case BitScanForward match of
        None \<Rightarrow> None
      | Some off \<Rightarrow>
          if ks ! (i + off) = key then Some (i + off)
          else hash__scan_match ks key i (match AND (match - 1)))"
  by pat_completeness auto

termination
proof (relation "measure (\<lambda>(ks, key, i, match). match)")
  show "wf (measure (\<lambda>(ks :: u64 list, key :: u64, i :: nat, match :: nat). match))"
    by simp
next
  fix ks :: "u64 list" and key :: u64 and i match off :: nat
  assume "BitScanForward match = Some off"
  then have "bit match off"
    by (auto simp: BitScanForward_def find_Some_iff)
  then have nz: "match \<noteq> 0"
    by (cases "match = 0") simp_all
  have "int (match AND (match - 1)) \<le> int (match - 1)"
    unfolding of_nat_and_eq by (rule AND_upper2) simp
  with nz have "match AND (match - 1) < match"
    by simp
  then show "((ks, key, i, match AND (match - 1)), (ks, key, i, match))
      \<in> measure (\<lambda>(ks, key, i, match). match)"
    by simp
qed

text \<open>
  The result \<open>Some idx\<close> of \<open>hash__get_idx\<close> is the return value 1 with \<^verbatim>\<open>*idx\<close> set,
  the result \<open>None\<close> is the return value -1.
\<close>

partial_function (option) hash__get_idx_loop ::
  "u8 list \<Rightarrow> u64 list \<Rightarrow> u64 \<Rightarrow> nat \<Rightarrow> u8 \<Rightarrow> nat \<Rightarrow> nat option option" where
  "hash__get_idx_loop mt ks key m msk i =
     (let vmeta = mm_load_si128 mt i;
          match = mm_movemask_epi8 (mm_cmpeq_epi8 vmeta (mm_set1_epi8 msk))
      in case (if match \<noteq> 0 then hash__scan_match ks key i match else None) of
           Some idx \<Rightarrow> Some (Some idx)
         | None \<Rightarrow>
             (let free = mm_movemask_epi8 (mm_cmpeq_epi8 vmeta mm_setzero_si128)
              in if free \<noteq> 0 then Some None
                 else hash__get_idx_loop mt ks key m msk (sz_add i 16 AND sz_sub m 1)))"

declare hash__get_idx_loop.simps [code]

definition hash__get_idx :: "u64 \<Rightarrow> 'v hash_map \<Rightarrow> u64 \<Rightarrow> nat option option" where
  "hash__get_idx seed mp key =
     (let mt = meta mp;
          ks = keys mp;
          hash = hash__hash seed key;
          m = info_capacity mp;
          grpidx = unat (hash__hash57 hash) AND sz_sub (m div 16) 1;
          i = sz_mul grpidx 16;
          msk = ucast (hash__hash7 hash) OR 0x80
      in hash__get_idx_loop mt ks key m msk i)"

subsection \<open>Lookup and deletion\<close>

text \<open>
  \<^verbatim>\<open>hash_get\<close> and \<^verbatim>\<open>hash_del\<close> read \<^verbatim>\<open>hash__get_info(map)->val_size\<close> first, with
  no test of the handle. The pointer that \<^verbatim>\<open>hash_get\<close> returns is the index of the
  slot; \<^verbatim>\<open>NULL\<close> is \<open>None\<close>.
\<close>

definition hash_get :: "u64 \<Rightarrow> 'v handle \<Rightarrow> u64 \<Rightarrow> nat option res option" where
  "hash_get seed h key =
     (case h of
        None \<Rightarrow> Some Fault
      | Some mp \<Rightarrow>
          (case hash__get_idx seed mp key of
             None \<Rightarrow> None
           | Some (Some idx) \<Rightarrow> Some (Ok (Some idx))
           | Some None \<Rightarrow> Some (Ok None)))"

text \<open>
  \<^verbatim>\<open>hash_del\<close> changes the image in place: the model returns the return value, the
  image after the call and the pointers handed to \<^verbatim>\<open>free\<close> (the value of the slot,
  when \<^verbatim>\<open>free_val\<close> is set). The code reads that pointer as the
  \<^verbatim>\<open>sizeof(void *)\<close> = 8 bytes at the address of the slot's value: the list of the model
  is the pointer freed for a table of pointers (\<open>val_size = 8\<close>); for another value width
  it says only at which slot the pointer is read. The theorems of the last section use
  \<^verbatim>\<open>hash_del\<close> with the flag unset.
\<close>

definition hash_del ::
  "u64 \<Rightarrow> 'v handle \<Rightarrow> u64 \<Rightarrow> bool \<Rightarrow> (bool \<times> 'v handle \<times> 'v list) res option" where
  "hash_del seed h key free_val =
     (case h of
        None \<Rightarrow> Some Fault
      | Some mp \<Rightarrow>
          (case hash__get_idx seed mp key of
             None \<Rightarrow> None
           | Some (Some idx) \<Rightarrow>
               Some (Ok (True,
                         Some (mp\<lparr>meta := (meta mp)[idx := HASH__TOMB],
                                  info_size := sz_sub (info_size mp) 1\<rparr>),
                         if free_val then [vals mp ! idx] else []))
           | Some None \<Rightarrow> Some (Ok (False, Some mp, []))))"

text \<open>
  \<^verbatim>\<open>hash_free(map)\<close> hands \<^verbatim>\<open>hash__get_base(map)\<close> to the deallocator. For the null
  handle \<^verbatim>\<open>hash_capacity\<close> is 0 and the pointer is \<^verbatim>\<open>(hash__info_t *)NULL - 1\<close>, which
  no allocation returned.
\<close>

definition hash_free :: "'v handle \<Rightarrow> unit res" where
  "hash_free h = (case h of None \<Rightarrow> Fault | Some mp \<Rightarrow> Ok ())"

subsection \<open>Insertion\<close>

partial_function (option) hash__get_freetombidx_loop :: "u8 list \<Rightarrow> nat \<Rightarrow> nat \<Rightarrow> nat option" where
  "hash__get_freetombidx_loop mt m i =
     (let vmeta = mm_load_si128 mt i;
          vmask = mm_and_si128 vmeta (mm_set1_epi8 0x80);
          freetomb = mm_movemask_epi8 (mm_cmpeq_epi8 vmask mm_setzero_si128)
      in if freetomb \<noteq> 0
         then map_option (\<lambda>off. i + off) (BitScanForward freetomb)
         else hash__get_freetombidx_loop mt m (sz_add i 16 AND sz_sub m 1))"

declare hash__get_freetombidx_loop.simps [code]

definition hash__get_freetombidx :: "u64 \<Rightarrow> 'v hash_map \<Rightarrow> u64 \<Rightarrow> nat option" where
  "hash__get_freetombidx seed mp key =
     (let mt = meta mp;
          hash = hash__hash seed key;
          m = info_capacity mp;
          grpidx = unat (hash__hash57 hash) AND sz_sub (m div 16) 1;
          i = sz_mul grpidx 16
      in hash__get_freetombidx_loop mt m i)"

text \<open>
  The write of \<^verbatim>\<open>hash_put\<close>, before the test of the load factor. The profiling
  counters of the macro are not part of the table and are left out.
\<close>

definition hash__put_slot :: "u64 \<Rightarrow> 'v hash_map \<Rightarrow> u64 \<Rightarrow> 'v \<Rightarrow> 'v hash_map option" where
  "hash__put_slot seed mp k val =
     (let hash = hash__hash seed k;
          msk = ucast (hash__hash7 hash) OR 0x80
      in case hash__get_idx seed mp k of
           None \<Rightarrow> None
         | Some (Some idx) \<Rightarrow> Some (mp\<lparr>vals := (vals mp)[idx := val]\<rparr>)
         | Some None \<Rightarrow>
             (case hash__get_freetombidx seed mp k of
                None \<Rightarrow> None
              | Some idx \<Rightarrow>
                  Some (mp\<lparr>meta := (meta mp)[idx := msk],
                           keys := (keys mp)[idx := k],
                           vals := (vals mp)[idx := val],
                           info_size := sz_add (info_size mp) 1\<rparr>)))"

definition hash_put ::
  "u64 \<Rightarrow> 'v allocator \<Rightarrow> nat \<Rightarrow> 'v handle \<Rightarrow> u64 \<Rightarrow> 'v \<Rightarrow> 'v handle res option" where
  "hash_put seed al vsz h key val =
     (case (if h = None then hash__init al vsz h else h) of
        None \<Rightarrow> Some Fault
      | Some mp \<Rightarrow>
          (case hash__put_slot seed mp key val of
             None \<Rightarrow> None
           | Some mp1 \<Rightarrow>
               if info_size mp1 \<ge> sz_mul (info_capacity mp1 div 4) 3
               then map_option (\<lambda>mp2. Ok (Some mp2))
                      (hash__resize seed al mp1 (sz_mul (info_capacity mp1) 2))
               else Some (Ok (Some mp1))))"

section \<open>Notions of the verification\<close>

text \<open>
  The definitions of this section are not functions of \<^verbatim>\<open>hash.h\<close>: they are the
  words in which the properties of the code are stated (the invariant of an image, the
  map it represents) and the inputs the code is run on.
\<close>

subsection \<open>The size of an image\<close>

text \<open>
  The number of bytes of an image of \<open>capacity\<close> slots, as a natural number: the number
  \<^verbatim>\<open>hash__malloc\<close> asks for, before any wrap-around. The images that exist in memory
  are those whose number of bytes is below \<open>2\<^sup>6\<^sup>4\<close>.
\<close>

definition hash__image_bytes :: "nat \<Rightarrow> nat \<Rightarrow> nat" where
  "hash__image_bytes capacity val_size = 1 * capacity + 8 * capacity + 24 + val_size * capacity"

subsection \<open>Groups and probe sequences\<close>

text \<open>
  What one turn of a probe loop computes on the group of sixteen bytes at \<open>i\<close>: the first
  lane whose byte is the tag and whose key is the key looked for, whether a byte of the
  group is Free, and the first lane that is not Full.
\<close>

definition hash__group_match :: "u8 list \<Rightarrow> u64 list \<Rightarrow> u64 \<Rightarrow> u8 \<Rightarrow> nat \<Rightarrow> nat option" where
  "hash__group_match mt ks key msk i =
     find (\<lambda>off. mt ! (i + off) = msk \<and> ks ! (i + off) = key) [0..<16]"

definition hash__group_free :: "u8 list \<Rightarrow> nat \<Rightarrow> bool" where
  "hash__group_free mt i = (\<exists>j<16. mt ! (i + j) = 0)"

definition hash__group_freetomb :: "u8 list \<Rightarrow> nat \<Rightarrow> nat option" where
  "hash__group_freetomb mt i = find (\<lambda>off. \<not> hash_is_full (mt ! (i + off))) [0..<16]"

text \<open>
  The capacities of the code are the powers of two from 16 on that fit in \<^verbatim>\<open>size_t\<close>.
  At capacity \<open>c\<close> the probe for a key starts at the group \<open>hash__home\<close> (the low 57 bits
  of the hash pick the group) and looks for the byte \<open>hash__tag\<close> (the high 7 bits, with
  the bit 0x80 that marks a Full slot). \<open>hash__dist c g i\<close> is the number of steps from
  index \<open>g\<close> up to index \<open>i\<close>, around the table.
\<close>

definition hash__cap_ok :: "nat \<Rightarrow> bool" where
  "hash__cap_ok c = (\<exists>e. 4 \<le> e \<and> e < 64 \<and> c = 2 ^ e)"

definition hash__home :: "u64 \<Rightarrow> nat \<Rightarrow> u64 \<Rightarrow> nat" where
  "hash__home seed c key = 16 * (unat (hash__hash57 (hash__hash seed key)) mod (c div 16))"

definition hash__tag :: "u64 \<Rightarrow> u64 \<Rightarrow> u8" where
  "hash__tag seed key = ucast (hash__hash7 (hash__hash seed key)) OR 0x80"

definition hash__dist :: "nat \<Rightarrow> nat \<Rightarrow> nat \<Rightarrow> nat" where
  "hash__dist c g i = (i + c - g) mod c"

subsection \<open>The invariant of an image\<close>

text \<open>
  An image is well formed when its capacity is one of the code's and its three arrays have
  that length. A Full slot \<open>i\<close> is on the probe path of its key when no byte from the home
  group of the key up to \<open>i\<close> is Free. The invariant \<open>hash_inv\<close> of the images says: every
  Full slot carries the tag of its key and is on the probe path of its key, no key is in
  two Full slots, and the size field counts the Full slots.
\<close>

definition hash_wf :: "'v hash_map \<Rightarrow> bool" where
  "hash_wf m = (hash__cap_ok (info_capacity m) \<and> length (meta m) = info_capacity m \<and>
     length (keys m) = info_capacity m \<and> length (vals m) = info_capacity m)"

definition hash_on_probe_path :: "u64 \<Rightarrow> 'v hash_map \<Rightarrow> nat \<Rightarrow> bool" where
  "hash_on_probe_path seed m i =
     (let c = info_capacity m; g = hash__home seed c (keys m ! i)
      in \<forall>d<hash__dist c g i. \<not> hash_is_free (meta m ! ((g + d) mod c)))"

definition hash_slots_ok :: "u64 \<Rightarrow> 'v hash_map \<Rightarrow> bool" where
  "hash_slots_ok seed m =
     (\<forall>i<info_capacity m. hash_is_full (meta m ! i) \<longrightarrow>
        meta m ! i = hash__tag seed (keys m ! i) \<and> hash_on_probe_path seed m i)"

definition hash_keys_distinct :: "'v hash_map \<Rightarrow> bool" where
  "hash_keys_distinct m =
     (\<forall>i<info_capacity m. \<forall>j<info_capacity m.
        hash_is_full (meta m ! i) \<and> hash_is_full (meta m ! j) \<and> keys m ! i = keys m ! j \<longrightarrow> i = j)"

definition hash_struct :: "u64 \<Rightarrow> 'v hash_map \<Rightarrow> bool" where
  "hash_struct seed m = (hash_wf m \<and> hash_slots_ok seed m \<and> hash_keys_distinct m)"

definition hash_inv :: "u64 \<Rightarrow> 'v hash_map \<Rightarrow> bool" where
  "hash_inv seed m = (hash_struct seed m \<and> info_size m = length (filter hash_is_full (meta m)))"

definition hash_handle_inv :: "u64 \<Rightarrow> 'v handle \<Rightarrow> bool" where
  "hash_handle_inv seed h = (case h of None \<Rightarrow> True | Some m \<Rightarrow> hash_inv seed m)"

definition hash_probe_inv :: "u64 \<Rightarrow> 'v handle \<Rightarrow> bool" where
  "hash_probe_inv seed h =
     (case h of
        None \<Rightarrow> True
      | Some m \<Rightarrow> \<forall>i<info_capacity m. hash_is_full (meta m ! i) \<longrightarrow> hash_on_probe_path seed m i)"

text \<open>
  The map an image represents: the key \<open>k\<close> is present when a Full slot holds it, and its
  value is the value of that slot. \<open>hash_has_free\<close> says that some metadata byte is Free,
  \<open>hash_no_tomb\<close> that no metadata byte is a Tombstone (every byte that is not Full is
  Free).
\<close>

definition hash_slot_of :: "'v hash_map \<Rightarrow> u64 \<Rightarrow> nat option" where
  "hash_slot_of m k = find (\<lambda>i. hash_is_full (meta m ! i) \<and> keys m ! i = k) [0..<info_capacity m]"

definition hash_lookup :: "'v hash_map \<Rightarrow> u64 \<Rightarrow> 'v option" where
  "hash_lookup m k = map_option (\<lambda>i. vals m ! i) (hash_slot_of m k)"

definition hash_has_free :: "'v hash_map \<Rightarrow> bool" where
  "hash_has_free m = (\<exists>i<info_capacity m. hash_is_free (meta m ! i))"

definition hash_no_tomb :: "'v hash_map \<Rightarrow> bool" where
  "hash_no_tomb m = (\<forall>p<info_capacity m. \<not> hash_is_full (meta m ! p) \<longrightarrow> hash_is_free (meta m ! p))"

text \<open>
  The state of \<^verbatim>\<open>hash__rehash\<close> after the first \<open>n\<close> slots of the old image \<open>m\<close>: the new
  image \<open>nm\<close> holds the pairs of those slots.
\<close>

definition hash_lookup_upto :: "'v hash_map \<Rightarrow> nat \<Rightarrow> u64 \<Rightarrow> 'v option" where
  "hash_lookup_upto m n k =
     map_option (\<lambda>i. vals m ! i)
       (find (\<lambda>i. hash_is_full (meta m ! i) \<and> keys m ! i = k) [0..<n])"

definition hash__rehashed :: "u64 \<Rightarrow> 'v hash_map \<Rightarrow> nat \<Rightarrow> 'v hash_map \<Rightarrow> 'v hash_map \<Rightarrow> bool" where
  "hash__rehashed seed m n nm0 nm =
     (hash_struct seed nm \<and> hash_no_tomb nm \<and>
      info_capacity nm = info_capacity nm0 \<and> info_size nm = info_size nm0 \<and>
      info_val_size nm = info_val_size nm0 \<and>
      length (filter hash_is_full (meta nm)) = length (filter hash_is_full (take n (meta m))) \<and>
      hash_lookup nm = hash_lookup_upto m n)"

subsection \<open>Reading a value, and runs of operations\<close>

text \<open>
  \<^verbatim>\<open>hash_get\<close> returns a pointer into the values array; \<open>hash_get_val\<close> is the value the
  caller reads through it.
\<close>

definition hash_get_val :: "u64 \<Rightarrow> 'v handle \<Rightarrow> u64 \<Rightarrow> 'v option res option" where
  "hash_get_val seed h key =
     (case hash_get seed h key of
        None \<Rightarrow> None
      | Some Fault \<Rightarrow> Some Fault
      | Some (Ok None) \<Rightarrow> Some (Ok None)
      | Some (Ok (Some idx)) \<Rightarrow>
          (case h of None \<Rightarrow> Some Fault | Some mp \<Rightarrow> Some (Ok (Some (vals mp ! idx)))))"

text \<open>
  A run applies put, del and reserve in sequence, each to the handle the one before left.
  \<open>hash_op_bound\<close> bounds the capacity after an operation by a bound on the capacity
  before it.
\<close>

datatype 'v hash_op = Put u64 'v | Del u64 bool | Reserve nat

fun hash_apply_op :: "u64 \<Rightarrow> 'v allocator \<Rightarrow> nat \<Rightarrow> 'v handle \<Rightarrow> 'v hash_op \<Rightarrow> 'v handle res option" where
  "hash_apply_op seed al vsz h (Put k v) = hash_put seed al vsz h k v"
| "hash_apply_op seed al vsz h (Del k fv) =
     (case hash_del seed h k fv of
        None \<Rightarrow> None
      | Some Fault \<Rightarrow> Some Fault
      | Some (Ok (r, h', fr)) \<Rightarrow> Some (Ok h'))"
| "hash_apply_op seed al vsz h (Reserve n) = hash_reserve seed al vsz h n"

fun hash_run :: "u64 \<Rightarrow> 'v allocator \<Rightarrow> nat \<Rightarrow> 'v handle \<Rightarrow> 'v hash_op list \<Rightarrow> 'v handle res option" where
  "hash_run seed al vsz h [] = Some (Ok h)"
| "hash_run seed al vsz h (x # xs) =
     (case hash_apply_op seed al vsz h x of
        None \<Rightarrow> None
      | Some Fault \<Rightarrow> Some Fault
      | Some (Ok h') \<Rightarrow> hash_run seed al vsz h' xs)"

fun hash_op_bound :: "'v hash_op \<Rightarrow> nat \<Rightarrow> nat" where
  "hash_op_bound (Put k v) c = 2 * c"
| "hash_op_bound (Del k fv) c = c"
| "hash_op_bound (Reserve n) c = max c (2 * n)"

subsection \<open>Concrete tables\<close>

text \<open>
  The allocator \<open>alloc_zero\<close> always succeeds and hands out zeroed memory. With the seed
  of the source, the keys of \<open>keys_low\<close> have their home in the first group of a table of
  capacity 32 and the keys of \<open>keys_high\<close> in the second. The tables are the images the
  runs of the last section end in; values are numbers (\<open>val_size\<close> 8).
\<close>

definition alloc_zero :: "nat allocator" where
  "alloc_zero = (\<lambda>bytes. Some (\<lambda>i. 0, \<lambda>i. 0))"

definition keys_low :: "nat list" where
  "keys_low = [0, 3, 4, 7, 10, 12, 16, 21, 22, 26, 27, 29, 30, 31, 33, 34]"

definition keys_high :: "nat list" where
  "keys_high = [1, 2, 5, 6, 8, 9, 11, 13, 14, 15, 17, 18, 19, 20, 23, 24]"

definition put_all :: "nat list \<Rightarrow> nat hash_op list" where
  "put_all ks = map (\<lambda>k. Put (of_nat k) (k * 10)) ks"

definition del_all :: "nat list \<Rightarrow> nat hash_op list" where
  "del_all ks = map (\<lambda>k. Del (of_nat k) False) ks"

definition tbl_empty :: "nat hash_map" where
  "tbl_empty =
     \<lparr>meta = replicate 16 0,
      keys = replicate 16 0,
      info_size = 0, info_capacity = 16, info_val_size = 8,
      vals = replicate 16 0\<rparr>"

definition tbl_one :: "nat hash_map" where
  "tbl_one =
     \<lparr>meta = 190 # replicate 15 0,
      keys = 1 # replicate 15 0,
      info_size = 1, info_capacity = 16, info_val_size = 8,
      vals = 65 # replicate 15 0\<rparr>"

definition tbl_tomb :: "nat hash_map" where
  "tbl_tomb =
     \<lparr>meta = [1, 194] @ replicate 14 0,
      keys = [1, 2] @ replicate 14 0,
      info_size = 1, info_capacity = 16, info_val_size = 8,
      vals = [65, 66] @ replicate 14 0\<rparr>"

definition tbl_eleven :: "nat hash_map" where
  "tbl_eleven =
     \<lparr>meta = [151, 190, 194, 223, 188, 173, 155, 229, 231, 132, 249] @ replicate 5 0,
      keys = [0, 1, 2, 3, 4, 5, 6, 7, 8, 9, 10] @ replicate 5 0,
      info_size = 11, info_capacity = 16, info_val_size = 8,
      vals = [0, 10, 20, 30, 40, 50, 60, 70, 80, 90, 100] @ replicate 5 0\<rparr>"

definition tbl_twelve :: "nat hash_map" where
  "tbl_twelve =
     \<lparr>meta = [151, 223, 188, 229, 249] @ replicate 11 0 @ [190, 194, 173, 155, 231, 132, 162] @ replicate 9 0,
      keys = [0, 3, 4, 7, 10] @ replicate 11 0 @ [1, 2, 5, 6, 8, 9, 11] @ replicate 9 0,
      info_size = 12, info_capacity = 32, info_val_size = 8,
      vals = [0, 30, 40, 70, 100] @ replicate 11 0 @ [10, 20, 50, 60, 80, 90, 110] @ replicate 9 0\<rparr>"

definition tbl_low :: "nat hash_map" where
  "tbl_low =
     \<lparr>meta = [151, 223, 188, 229, 249, 140, 189, 239, 206, 206, 154, 151, 251, 218, 140, 183] @ replicate 16 0,
      keys = map of_nat keys_low @ replicate 16 0,
      info_size = 16, info_capacity = 32, info_val_size = 8,
      vals = map (\<lambda>k. k * 10) keys_low @ replicate 16 0\<rparr>"

definition tbl_cleared :: "nat hash_map" where
  "tbl_cleared =
     \<lparr>meta = replicate 16 1 @ replicate 16 0,
      keys = map of_nat keys_low @ replicate 16 0,
      info_size = 0, info_capacity = 32, info_val_size = 8,
      vals = map (\<lambda>k. k * 10) keys_low @ replicate 16 0\<rparr>"

definition tbl_saturated :: "nat hash_map" where
  "tbl_saturated =
     \<lparr>meta = replicate 16 1 @ [190, 194, 173, 155, 231, 132, 162, 190, 240, 143, 148, 233, 236, 209, 215, 189],
      keys = map of_nat (keys_low @ keys_high),
      info_size = 16, info_capacity = 32, info_val_size = 8,
      vals = map (\<lambda>k. k * 10) (keys_low @ keys_high)\<rparr>"

definition tbl_saturated_del :: "nat hash_map" where
  "tbl_saturated_del =
     \<lparr>meta = replicate 16 1 @ [1, 194, 173, 155, 231, 132, 162, 190, 240, 143, 148, 233, 236, 209, 215, 189],
      keys = map of_nat (keys_low @ keys_high),
      info_size = 15, info_capacity = 32, info_val_size = 8,
      vals = map (\<lambda>k. k * 10) (keys_low @ keys_high)\<rparr>"

section \<open>Properties of the code\<close>

subsection \<open>Words, bitmaps and the bit scan\<close>

declare hash__scan_match.simps [simp del]

lemma sz_add_eq: "a + b < 2 ^ 64 \<Longrightarrow> sz_add a b = a + b"
  by (simp add: sz_add_def)

lemma sz_sub_eq: "b \<le> a \<Longrightarrow> a < 2 ^ 64 \<Longrightarrow> sz_sub a b = a - b"
proof -
  assume le: "b \<le> a" and lt: "a < 2 ^ 64"
  have "a + 2 ^ 64 - b = (a - b) + 2 ^ 64"
    using le by simp
  then have "sz_sub a b = (a - b) mod 2 ^ 64"
    by (simp only: sz_sub_def mod_add_self2)
  with lt show ?thesis
    by simp
qed

lemma sz_mul_eq: "a * b < 2 ^ 64 \<Longrightarrow> sz_mul a b = a * b"
  by (simp add: sz_mul_def)

lemma nat_and_pow2_pred: "(x::nat) AND (2 ^ e - 1) = x mod 2 ^ e"
  by (simp add: take_bit_eq_mod [symmetric] take_bit_eq_mask mask_eq_exp_minus_1)

lemma nat_eq_0_iff_no_bit: "(x::nat) = 0 \<longleftrightarrow> (\<forall>j. \<not> bit x j)"
  by (auto simp: bit_eq_iff)

lemma hash_is_full_iff_bit: "hash_is_full b \<longleftrightarrow> bit b 7"
proof -
  have "(b AND 2 ^ 7 = 2 ^ 7) = bit b 7"
  proof
    assume "b AND 2 ^ 7 = 2 ^ 7"
    then have "bit (b AND 2 ^ 7) 7 = bit (2 ^ 7 :: u8) 7"
      by simp
    then show "bit b 7"
      by (simp add: bit_and_iff)
  next
    assume b7: "bit b 7"
    show "b AND 2 ^ 7 = 2 ^ 7"
    proof (rule bit_word_eqI)
      fix n
      show "bit (b AND 2 ^ 7) n = bit (2 ^ 7 :: u8) n"
        using b7 by (cases "n = 7") (simp_all add: bit_and_iff bit_exp_iff del: power_numeral)
    qed
  qed
  then show ?thesis
    by (simp add: hash_is_full_def)
qed

lemma and_0x80_eq_0_iff: "(b :: u8) AND 0x80 = 0 \<longleftrightarrow> \<not> hash_is_full b"
proof -
  have e: "(0x80 :: u8) = 2 ^ 7" by simp
  show ?thesis unfolding hash_is_full_iff_bit e
    by (rule and_exp_eq_0_iff_not_bit)
qed

lemma bit_movemask: "bit (mm_movemask_epi8 a) j \<longleftrightarrow> j < length a \<and> bit (a ! j) 7"
  by (auto simp: mm_movemask_epi8_def bit_horner_sum_bit_iff)

lemma length_load: "i + 16 \<le> length mt \<Longrightarrow> length (mm_load_si128 mt i) = 16"
  by (simp add: mm_load_si128_def)

lemma nth_load: "i + 16 \<le> length mt \<Longrightarrow> j < 16 \<Longrightarrow> mm_load_si128 mt i ! j = mt ! (i + j)"
  by (simp add: mm_load_si128_def)

lemma bit_match_bitmap:
  assumes "i + 16 \<le> length mt"
  shows "bit (mm_movemask_epi8 (mm_cmpeq_epi8 (mm_load_si128 mt i) (mm_set1_epi8 b))) j
           \<longleftrightarrow> j < 16 \<and> mt ! (i + j) = b"
  using assms
  by (auto simp: bit_movemask mm_cmpeq_epi8_def mm_set1_epi8_def length_load nth_load
      split: if_splits)

lemma bit_free_bitmap:
  assumes "i + 16 \<le> length mt"
  shows "bit (mm_movemask_epi8 (mm_cmpeq_epi8 (mm_load_si128 mt i) mm_setzero_si128)) j
           \<longleftrightarrow> j < 16 \<and> mt ! (i + j) = 0"
  using assms
  by (auto simp: bit_movemask mm_cmpeq_epi8_def mm_setzero_si128_def length_load nth_load
      split: if_splits)

lemma bit_freetomb_bitmap:
  assumes "i + 16 \<le> length mt"
  shows "bit (mm_movemask_epi8 (mm_cmpeq_epi8
                 (mm_and_si128 (mm_load_si128 mt i) (mm_set1_epi8 0x80)) mm_setzero_si128)) j
           \<longleftrightarrow> j < 16 \<and> \<not> hash_is_full (mt ! (i + j))"
  using assms
  by (auto simp: bit_movemask mm_cmpeq_epi8_def mm_setzero_si128_def mm_and_si128_def
      mm_set1_epi8_def length_load nth_load and_0x80_eq_0_iff split: if_splits)

lemma BitScanForward_Some_iff:
  "BitScanForward bm = Some j \<longleftrightarrow> j < 32 \<and> bit bm j \<and> (\<forall>j'<j. \<not> bit bm j')"
  by (auto simp: BitScanForward_def find_Some_iff)

lemma BitScanForward_None_iff:
  "BitScanForward bm = None \<longleftrightarrow> (\<forall>j<32. \<not> bit bm j)"
  by (auto simp: BitScanForward_def find_None_iff)

subsection \<open>One turn of the probe loops\<close>

lemma bit_and_pred:
  "(x::nat) \<noteq> 0 \<Longrightarrow> bit (x AND (x - 1)) k \<longleftrightarrow> bit x k \<and> (\<exists>j<k. bit x j)"
proof (induction k arbitrary: x)
  case 0
  then have "even x \<or> even (x - 1)" by presburger
  then show ?case
    by (simp add: bit_0 even_and_iff)
next
  case (Suc k)
  have "bit (x AND (x - 1)) (Suc k) = (bit x (Suc k) \<and> bit (x - 1) (Suc k))"
    by (rule bit_and_iff)
  then have split: "bit (x AND (x - 1)) (Suc k) = (bit (x div 2) k \<and> bit ((x - 1) div 2) k)"
    by (simp only: bit_Suc)
  have ex: "(\<exists>j<Suc k. bit x j) = (odd x \<or> (\<exists>j<k. bit (x div 2) j))"
    by (simp only: Ex_less_Suc2 bit_Suc bit_0 simp_thms)
  have bs: "bit x (Suc k) = bit (x div 2) k"
    by (rule bit_Suc)
  show ?case
  proof (cases "odd x")
    case True
    then have "(x - 1) div 2 = x div 2" by presburger
    with True show ?thesis
      by (simp only: split ex bs simp_thms)
  next
    case False
    with Suc.prems have nz: "x div 2 \<noteq> 0" and e: "(x - 1) div 2 = x div 2 - 1"
      by presburger+
    have "bit (x AND (x - 1)) (Suc k) = bit (x div 2 AND (x div 2 - 1)) k"
      by (simp only: split e bit_and_iff [of "x div 2" "x div 2 - 1" k])
    also have "\<dots> = (bit (x div 2) k \<and> (\<exists>j<k. bit (x div 2) j))"
      by (rule Suc.IH [OF nz])
    finally show ?thesis
      using False by (simp only: ex bs simp_thms)
  qed
qed

lemma find_append_opt:
  "find P (xs @ ys) = (case find P xs of Some x \<Rightarrow> Some x | None \<Rightarrow> find P ys)"
  by (induction xs) auto

lemma find_upt_first: "j < n \<Longrightarrow> P j \<Longrightarrow> \<forall>j'<j. \<not> P j' \<Longrightarrow> find P [0..<n] = Some j"
  by (auto simp: find_Some_iff intro!: exI [of _ j])

lemma find_upt_Some_iff: "find P [0..<n] = Some j \<longleftrightarrow> j < n \<and> P j \<and> (\<forall>j'<j. \<not> P j')"
  by (auto simp: find_Some_iff)

lemma find_upt_None_iff: "find P [0..<n] = None \<longleftrightarrow> (\<forall>j<n. \<not> P j)"
  by (auto simp: find_None_iff)

lemma find_upt_widen:
  assumes "\<And>j. P j \<Longrightarrow> j < n" and "n \<le> n'"
  shows "find P [0..<n'] = find P [0..<n]"
proof (cases "find P [0..<n]")
  case None
  then have "\<forall>j<n. \<not> P j" by (simp add: find_upt_None_iff)
  with assms(1) have "\<forall>j<n'. \<not> P j" by blast
  then have "find P [0..<n'] = None" by (simp add: find_upt_None_iff)
  with None show ?thesis by simp
next
  case (Some j)
  then have "j < n" "P j" "\<forall>j'<j. \<not> P j'" by (auto simp: find_upt_Some_iff)
  with assms(2) have "find P [0..<n'] = Some j" by (intro find_upt_first) auto
  with Some show ?thesis by simp
qed

lemma scan_match_eq:
  assumes "\<And>j. bit bm j \<Longrightarrow> j < 32"
  shows "hash__scan_match ks key i bm =
           map_option (\<lambda>off. i + off) (find (\<lambda>off. bit bm off \<and> ks ! (i + off) = key) [0..<32])"
  using assms
proof (induction ks key i bm rule: hash__scan_match.induct)
  case (1 ks key i bm)
  show ?case
  proof (cases "BitScanForward bm")
    case None
    then have "\<forall>j<32. \<not> bit bm j"
      by (simp add: BitScanForward_None_iff)
    then have "find (\<lambda>off. bit bm off \<and> ks ! (i + off) = key) [0..<32] = None"
      by (simp add: find_upt_None_iff)
    with None show ?thesis
      by (subst hash__scan_match.simps) simp
  next
    case (Some off0)
    then have o: "off0 < 32" "bit bm off0" "\<forall>j'<off0. \<not> bit bm j'"
      by (auto simp: BitScanForward_Some_iff)
    show ?thesis
    proof (cases "ks ! (i + off0) = key")
      case True
      have "find (\<lambda>off. bit bm off \<and> ks ! (i + off) = key) [0..<32] = Some off0"
        using o True by (intro find_upt_first) auto
      with Some True show ?thesis
        by (subst hash__scan_match.simps) simp
    next
      case False
      let ?bm' = "bm AND (bm - 1)"
      have nz: "bm \<noteq> 0"
        using o(2) by (cases "bm = 0") simp_all
      have bits': "bit ?bm' j \<longleftrightarrow> bit bm j \<and> j \<noteq> off0" for j
      proof -
        have "(bit bm j \<and> (\<exists>j'<j. bit bm j')) \<longleftrightarrow> (bit bm j \<and> j \<noteq> off0)"
          using o by (metis linorder_neqE_nat)
        then show ?thesis
          using bit_and_pred [OF nz, of j] by simp
      qed
      have "hash__scan_match ks key i ?bm' =
              map_option (\<lambda>off. i + off)
                (find (\<lambda>off. bit ?bm' off \<and> ks ! (i + off) = key) [0..<32])"
        using "1.IH" [OF Some False] "1.prems" bits' by blast
      also have "find (\<lambda>off. bit ?bm' off \<and> ks ! (i + off) = key) [0..<32] =
                 find (\<lambda>off. bit bm off \<and> ks ! (i + off) = key) [0..<32]"
        by (rule find_cong) (use bits' False in auto)
      finally show ?thesis
        using Some False by (subst hash__scan_match.simps) simp
    qed
  qed
qed

lemma match_bitmap_scan:
  assumes "i + 16 \<le> length mt"
  shows "(let match = mm_movemask_epi8 (mm_cmpeq_epi8 (mm_load_si128 mt i) (mm_set1_epi8 msk))
          in if match \<noteq> 0 then hash__scan_match ks key i match else None) =
         map_option (\<lambda>off. i + off) (hash__group_match mt ks key msk i)"
proof -
  let ?bm = "mm_movemask_epi8 (mm_cmpeq_epi8 (mm_load_si128 mt i) (mm_set1_epi8 msk))"
  have bm: "bit ?bm j \<longleftrightarrow> j < 16 \<and> mt ! (i + j) = msk" for j
    by (rule bit_match_bitmap [OF assms])
  have "hash__scan_match ks key i ?bm =
          map_option (\<lambda>off. i + off) (find (\<lambda>off. bit ?bm off \<and> ks ! (i + off) = key) [0..<32])"
    by (rule scan_match_eq) (simp add: bm)
  also have "find (\<lambda>off. bit ?bm off \<and> ks ! (i + off) = key) [0..<32] =
             find (\<lambda>off. bit ?bm off \<and> ks ! (i + off) = key) [0..<16]"
    by (rule find_upt_widen) (simp_all add: bm)
  also have "\<dots> = hash__group_match mt ks key msk i"
    unfolding hash__group_match_def by (rule find_cong) (auto simp: bm)
  finally have scan: "hash__scan_match ks key i ?bm =
      map_option (\<lambda>off. i + off) (hash__group_match mt ks key msk i)" .
  have zero: "hash__group_match mt ks key msk i = None" if "?bm = 0"
  proof -
    from that have "\<not> bit ?bm j" for j by simp
    then show ?thesis
      by (auto simp: hash__group_match_def find_upt_None_iff bm)
  qed
  show ?thesis
  proof (cases "?bm = 0")
    case True
    then show ?thesis
      using zero by (simp del: neq0_conv)
  next
    case False
    then show ?thesis
      by (simp only: Let_def scan if_True not_False_eq_True)
  qed
qed

lemma free_bitmap_nonzero:
  assumes "i + 16 \<le> length mt"
  shows "(mm_movemask_epi8 (mm_cmpeq_epi8 (mm_load_si128 mt i) mm_setzero_si128) \<noteq> 0) =
         hash__group_free mt i"
  by (auto simp: nat_eq_0_iff_no_bit bit_free_bitmap [OF assms] hash__group_free_def
      simp del: neq0_conv)

text \<open>One turn of the loop of \<open>hash__get_idx\<close>, for any continuation \<open>f\<close>.\<close>

lemma get_idx_body:
  assumes "i + 16 \<le> length mt"
  shows "(let vmeta = mm_load_si128 mt i;
              match = mm_movemask_epi8 (mm_cmpeq_epi8 vmeta (mm_set1_epi8 msk))
          in case (if match \<noteq> 0 then hash__scan_match ks key i match else None) of
               Some idx \<Rightarrow> Some (Some idx)
             | None \<Rightarrow>
                 (let free = mm_movemask_epi8 (mm_cmpeq_epi8 vmeta mm_setzero_si128)
                  in if free \<noteq> 0 then Some None else f (sz_add i 16 AND sz_sub m 1))) =
         (case hash__group_match mt ks key msk i of
            Some off \<Rightarrow> Some (Some (i + off))
          | None \<Rightarrow> if hash__group_free mt i then Some None else f (sz_add i 16 AND sz_sub m 1))"
proof -
  have "(let vmeta = mm_load_si128 mt i;
              match = mm_movemask_epi8 (mm_cmpeq_epi8 vmeta (mm_set1_epi8 msk))
          in case (if match \<noteq> 0 then hash__scan_match ks key i match else None) of
               Some idx \<Rightarrow> Some (Some idx)
             | None \<Rightarrow>
                 (let free = mm_movemask_epi8 (mm_cmpeq_epi8 vmeta mm_setzero_si128)
                  in if free \<noteq> 0 then Some None else f (sz_add i 16 AND sz_sub m 1))) =
        (case map_option (\<lambda>off. i + off) (hash__group_match mt ks key msk i) of
            Some idx \<Rightarrow> Some (Some idx)
          | None \<Rightarrow> if hash__group_free mt i then Some None else f (sz_add i 16 AND sz_sub m 1))"
    using match_bitmap_scan [OF assms, of msk ks key] free_bitmap_nonzero [OF assms]
    by (simp only: Let_def)
  then show ?thesis
    by (cases "hash__group_match mt ks key msk i") simp_all
qed

lemma get_idx_loop_unfold:
  assumes "i + 16 \<le> length mt"
  shows "hash__get_idx_loop mt ks key m msk i =
     (case hash__group_match mt ks key msk i of
        Some off \<Rightarrow> Some (Some (i + off))
      | None \<Rightarrow>
          if hash__group_free mt i then Some None
          else hash__get_idx_loop mt ks key m msk (sz_add i 16 AND sz_sub m 1))"
  by (subst hash__get_idx_loop.simps) (rule get_idx_body [OF assms])

lemma get_freetombidx_loop_unfold:
  assumes "i + 16 \<le> length mt"
  shows "hash__get_freetombidx_loop mt m i =
     (case hash__group_freetomb mt i of
        Some off \<Rightarrow> Some (i + off)
      | None \<Rightarrow> hash__get_freetombidx_loop mt m (sz_add i 16 AND sz_sub m 1))"
proof -
  let ?ft = "mm_movemask_epi8 (mm_cmpeq_epi8
               (mm_and_si128 (mm_load_si128 mt i) (mm_set1_epi8 0x80)) mm_setzero_si128)"
  have ft: "bit ?ft j \<longleftrightarrow> j < 16 \<and> \<not> hash_is_full (mt ! (i + j))" for j
    by (rule bit_freetomb_bitmap [OF assms])
  have "BitScanForward ?ft = find (bit ?ft) [0..<16]"
    unfolding BitScanForward_def by (rule find_upt_widen) (simp_all add: ft)
  also have "\<dots> = hash__group_freetomb mt i"
    unfolding hash__group_freetomb_def by (rule find_cong) (auto simp: ft)
  finally have bsf: "BitScanForward ?ft = hash__group_freetomb mt i" .
  have ftz: "(?ft \<noteq> 0) = (hash__group_freetomb mt i \<noteq> None)"
    by (auto simp: nat_eq_0_iff_no_bit hash__group_freetomb_def find_upt_None_iff ft
        simp del: neq0_conv)
  have "hash__get_freetombidx_loop mt m i =
     (if hash__group_freetomb mt i \<noteq> None
      then map_option (\<lambda>off. i + off) (hash__group_freetomb mt i)
      else hash__get_freetombidx_loop mt m (sz_add i 16 AND sz_sub m 1))"
    by (subst hash__get_freetombidx_loop.simps) (simp only: Let_def bsf ftz)
  then show ?thesis
    by (cases "hash__group_freetomb mt i") simp_all
qed

subsection \<open>Indices at a power-of-two capacity\<close>

lemma cap_ok_ge: "hash__cap_ok c \<Longrightarrow> 16 \<le> c"
proof -
  assume "hash__cap_ok c"
  then obtain e where e: "4 \<le> e" "c = 2 ^ e" by (auto simp: hash__cap_ok_def)
  have "(2::nat) ^ 4 \<le> 2 ^ e" using e(1) by (intro power_increasing) auto
  with e show ?thesis by simp
qed

lemma cap_ok_lt: "hash__cap_ok c \<Longrightarrow> c \<le> 2 ^ 63"
proof -
  assume "hash__cap_ok c"
  then obtain e where e: "e < 64" "c = 2 ^ e" by (auto simp: hash__cap_ok_def)
  have "(2::nat) ^ e \<le> 2 ^ 63" using e(1) by (intro power_increasing) auto
  with e show ?thesis by simp
qed

lemma cap_ok_dvd: "hash__cap_ok c \<Longrightarrow> 16 dvd c"
proof -
  assume "hash__cap_ok c"
  then obtain e where e: "4 \<le> e" "c = 2 ^ e" by (auto simp: hash__cap_ok_def)
  have "(2::nat) ^ 4 dvd 2 ^ e" using e(1) by (intro le_imp_power_dvd)
  with e show ?thesis by simp
qed

lemma cap_ok_and: "hash__cap_ok c \<Longrightarrow> x AND sz_sub c 1 = x mod c"
proof -
  assume c: "hash__cap_ok c"
  then obtain e where e: "c = 2 ^ e" by (auto simp: hash__cap_ok_def)
  have "sz_sub c 1 = c - 1"
    using cap_ok_ge [OF c] cap_ok_lt [OF c] by (intro sz_sub_eq) auto
  then show ?thesis
    unfolding e by (simp only: nat_and_pow2_pred)
qed

lemma cap_ok_groups_and:
  assumes c: "hash__cap_ok c"
  shows "x AND sz_sub (c div 16) 1 = x mod (c div 16)"
proof -
  from c obtain e where e: "4 \<le> e" "c = 2 ^ e" by (auto simp: hash__cap_ok_def)
  have "e = (e - 4) + 4"
    using e(1) by simp
  then have "(2::nat) ^ e = 2 ^ (e - 4) * 2 ^ 4"
    by (metis power_add)
  then have d: "c div 16 = 2 ^ (e - 4)"
    using e(2) by simp
  have "1 \<le> c div 16" "c div 16 < 2 ^ 64"
    using cap_ok_ge [OF c] cap_ok_lt [OF c] by auto
  then have "sz_sub (c div 16) 1 = c div 16 - 1"
    by (intro sz_sub_eq) auto
  then show ?thesis
    unfolding d by (simp only: nat_and_pow2_pred)
qed

lemma home_props:
  assumes c: "hash__cap_ok c"
  shows "16 dvd hash__home seed c key" and "hash__home seed c key < c"
proof -
  show "16 dvd hash__home seed c key"
    by (simp add: hash__home_def)
  have "0 < c div 16"
    using cap_ok_ge [OF c] by auto
  then have "unat (hash__hash57 (hash__hash seed key)) mod (c div 16) < c div 16"
    by simp
  then have "hash__home seed c key < 16 * (c div 16)"
    by (simp add: hash__home_def)
  also have "16 * (c div 16) = c"
    using cap_ok_dvd [OF c] by simp
  finally show "hash__home seed c key < c" .
qed

lemma start_index:
  assumes c: "hash__cap_ok c"
  shows "sz_mul (unat (hash__hash57 (hash__hash seed key)) AND sz_sub (c div 16) 1) 16 =
         hash__home seed c key"
proof -
  have "hash__home seed c key < 2 ^ 64"
    using home_props(2) [OF c, of seed key] cap_ok_lt [OF c] by simp
  then have "sz_mul (unat (hash__hash57 (hash__hash seed key)) mod (c div 16)) 16 =
      hash__home seed c key"
    by (simp add: hash__home_def sz_mul_def mult.commute)
  then show ?thesis
    by (simp only: cap_ok_groups_and [OF c])
qed

lemma next_group:
  assumes c: "hash__cap_ok c" and i: "i < c"
  shows "sz_add i 16 AND sz_sub c 1 = (i + 16) mod c"
proof -
  have "i + 16 < 2 ^ 64"
    using i cap_ok_lt [OF c] by simp
  then show ?thesis
    by (simp only: cap_ok_and [OF c] sz_add_eq)
qed

lemma next_slot:
  assumes c: "hash__cap_ok c" and i: "i < c"
  shows "sz_add i 1 AND sz_sub c 1 = (i + 1) mod c"
proof -
  have "i + 1 < 2 ^ 64"
    using i cap_ok_lt [OF c] by simp
  then show ?thesis
    by (simp only: cap_ok_and [OF c] sz_add_eq)
qed

text \<open>The position of the group reached after \<open>d\<close> steps from a group start \<open>h\<close>.\<close>

lemma group_pos:
  assumes c: "hash__cap_ok c" and h: "16 dvd h"
  shows "16 dvd (h + 16 * d) mod c" and "(h + 16 * d) mod c + 16 \<le> c"
proof -
  have c16: "16 dvd c" by (rule cap_ok_dvd [OF c])
  have "16 dvd h + 16 * d" using h by simp
  then show dv: "16 dvd (h + 16 * d) mod c"
    using c16 by (simp add: dvd_mod_iff)
  have "0 < c" using cap_ok_ge [OF c] by simp
  then have lt: "(h + 16 * d) mod c < c" by simp
  from dv obtain a where a: "(h + 16 * d) mod c = 16 * a" by (auto elim: dvdE)
  from c16 obtain b where b: "c = 16 * b" by (auto elim: dvdE)
  from lt a b have "a < b" by simp
  then have "16 * a + 16 \<le> 16 * b" by simp
  with a b show "(h + 16 * d) mod c + 16 \<le> c" by simp
qed

lemma group_slot:
  assumes c: "hash__cap_ok c" and h: "16 dvd h" and j: "j < 16"
  shows "(h + 16 * d) mod c + j = (h + (16 * d + j)) mod c"
proof -
  have "(h + 16 * d) mod c + j < c"
    using group_pos(2) [OF c h, of d] j by simp
  then have "(h + 16 * d) mod c + j = ((h + 16 * d) mod c + j) mod c"
    by simp
  also have "\<dots> = (h + 16 * d + j) mod c"
    by (simp add: mod_add_left_eq)
  finally show ?thesis by (simp add: add.assoc)
qed

lemma get_idx_loop_skip:
  assumes c: "hash__cap_ok c" and len: "length mt = c" and h: "16 dvd h" "h < c"
    and skip: "\<And>d'. d' < d \<Longrightarrow>
        hash__group_match mt ks key msk ((h + 16 * d') mod c) = None \<and>
        \<not> hash__group_free mt ((h + 16 * d') mod c)"
  shows "hash__get_idx_loop mt ks key c msk h =
         hash__get_idx_loop mt ks key c msk ((h + 16 * d) mod c)"
  using skip
proof (induction d)
  case 0
  then show ?case using h(2) by simp
next
  case (Suc d)
  let ?p = "(h + 16 * d) mod c"
  have lt: "?p < c" using h(2) by simp
  have "hash__get_idx_loop mt ks key c msk h = hash__get_idx_loop mt ks key c msk ?p"
    using Suc.prems by (intro Suc.IH) auto
  also have "\<dots> = hash__get_idx_loop mt ks key c msk (sz_add ?p 16 AND sz_sub c 1)"
    using Suc.prems [of d] group_pos(2) [OF c h(1), of d] len
    by (subst get_idx_loop_unfold) (simp_all del: One_nat_def)
  also have "sz_add ?p 16 AND sz_sub c 1 = (?p + 16) mod c"
    by (rule next_group [OF c lt])
  also have "(?p + 16) mod c = (h + 16 * Suc d) mod c"
    using mod_add_left_eq [of "h + 16 * d" c 16] by (simp add: algebra_simps)
  finally show ?case .
qed

lemma get_freetombidx_loop_skip:
  assumes c: "hash__cap_ok c" and len: "length mt = c" and h: "16 dvd h" "h < c"
    and skip: "\<And>d'. d' < d \<Longrightarrow> hash__group_freetomb mt ((h + 16 * d') mod c) = None"
  shows "hash__get_freetombidx_loop mt c h =
         hash__get_freetombidx_loop mt c ((h + 16 * d) mod c)"
  using skip
proof (induction d)
  case 0
  then show ?case using h(2) by simp
next
  case (Suc d)
  let ?p = "(h + 16 * d) mod c"
  have lt: "?p < c" using h(2) by simp
  have "hash__get_freetombidx_loop mt c h = hash__get_freetombidx_loop mt c ?p"
    using Suc.prems by (intro Suc.IH) auto
  also have "\<dots> = hash__get_freetombidx_loop mt c (sz_add ?p 16 AND sz_sub c 1)"
    using Suc.prems [of d] group_pos(2) [OF c h(1), of d] len
    by (subst get_freetombidx_loop_unfold) (simp_all del: One_nat_def)
  also have "sz_add ?p 16 AND sz_sub c 1 = (?p + 16) mod c"
    by (rule next_group [OF c lt])
  also have "(?p + 16) mod c = (h + 16 * Suc d) mod c"
    using mod_add_left_eq [of "h + 16 * d" c 16] by (simp add: algebra_simps)
  finally show ?case .
qed

lemma rehash_probe_skip:
  assumes c: "hash__cap_ok c" and h: "h < c"
    and skip: "\<And>d'. d' < d \<Longrightarrow> nbase ! ((h + d') mod c) \<noteq> 0"
  shows "hash__rehash_probe nbase c h = hash__rehash_probe nbase c ((h + d) mod c)"
  using skip
proof (induction d)
  case 0
  then show ?case using h by simp
next
  case (Suc d)
  let ?p = "(h + d) mod c"
  have lt: "?p < c" using h by simp
  have "hash__rehash_probe nbase c h = hash__rehash_probe nbase c ?p"
    using Suc.prems by (intro Suc.IH) auto
  also have "\<dots> = hash__rehash_probe nbase c (sz_add ?p 1 AND sz_sub c 1)"
    using Suc.prems [of d]
    by (subst hash__rehash_probe.simps) (simp add: hash_is_free_def del: One_nat_def)
  also have "sz_add ?p 1 AND sz_sub c 1 = (?p + 1) mod c"
    by (rule next_slot [OF c lt])
  also have "(?p + 1) mod c = (h + Suc d) mod c"
    using mod_add_left_eq [of "h + d" c 1] by simp
  finally show ?case .
qed

subsection \<open>Results of the probe loops\<close>

lemma dist_lt: "0 < c \<Longrightarrow> hash__dist c g i < c"
  by (simp add: hash__dist_def)

lemma dist_reach:
  assumes "g < c" and "i < c"
  shows "(g + hash__dist c g i) mod c = i"
proof -
  have "(g + hash__dist c g i) mod c = (g + (i + c - g)) mod c"
    unfolding hash__dist_def by (rule mod_add_right_eq)
  also have "g + (i + c - g) = i + c"
    using assms by simp
  finally show ?thesis
    using assms by simp
qed

lemma dist_unique:
  assumes "g < c" and "t < c"
  shows "hash__dist c g ((g + t) mod c) = t"
proof (cases "g + t < c")
  case True
  then have "(g + t) mod c + c - g = t + c" by simp
  then show ?thesis
    unfolding hash__dist_def using assms by simp
next
  case False
  then have "(g + t) mod c = g + t - c"
    using assms by (simp add: le_mod_geq)
  with False have "(g + t) mod c + c - g = t" by simp
  then show ?thesis
    unfolding hash__dist_def using assms by simp
qed

lemma dist_split:
  assumes c: "hash__cap_ok c" and h: "16 dvd h" "h < c" and s: "s < c"
  shows "(h + 16 * (hash__dist c h s div 16)) mod c + hash__dist c h s mod 16 = s"
proof -
  have "(h + 16 * (hash__dist c h s div 16)) mod c + hash__dist c h s mod 16 =
        (h + (16 * (hash__dist c h s div 16) + hash__dist c h s mod 16)) mod c"
    by (rule group_slot [OF c h(1)]) simp
  also have "16 * (hash__dist c h s div 16) + hash__dist c h s mod 16 = hash__dist c h s"
    by simp
  finally show ?thesis
    by (simp only: dist_reach [OF h(2) s])
qed

lemma group_in_range:
  assumes c: "hash__cap_ok c" and h: "16 dvd h" and j: "j < 16"
  shows "(h + 16 * d) mod c + j < c"
  using group_pos(2) [OF c h, of d] j by simp

text \<open>The probe ends with "absent" at the first group with a free byte.\<close>

lemma get_idx_loop_absent:
  assumes c: "hash__cap_ok c" and len: "length mt = c" and h: "16 dvd h" "h < c"
    and nomatch: "\<And>s. s < c \<Longrightarrow> \<not> (mt ! s = msk \<and> ks ! s = key)"
    and free: "f < c" "mt ! f = 0"
  shows "hash__get_idx_loop mt ks key c msk h = Some None"
proof -
  let ?p = "\<lambda>d. (h + 16 * d) mod c"
  have nm: "hash__group_match mt ks key msk (?p d) = None" for d
    using nomatch group_in_range [OF c h(1)]
    by (auto simp: hash__group_match_def find_upt_None_iff)
  let ?Q = "\<lambda>d. hash__group_free mt (?p d)"
  have "?Q (hash__dist c h f div 16)"
    unfolding hash__group_free_def
    using dist_split [OF c h free(1)] free(2)
    by (intro exI [of _ "hash__dist c h f mod 16"]) simp
  then have QD: "?Q (LEAST d. ?Q d)"
    by (rule LeastI)
  have least: "\<not> ?Q d" if "d < (LEAST d. ?Q d)" for d
    using that by (rule not_less_Least)
  define D where "D = (LEAST d. ?Q d)"
  have "hash__get_idx_loop mt ks key c msk h = hash__get_idx_loop mt ks key c msk (?p D)"
    using nm least unfolding D_def by (intro get_idx_loop_skip [OF c len h]) auto
  also have "\<dots> = Some None"
    using nm [of D] QD group_pos(2) [OF c h(1), of D] len unfolding D_def
    by (subst get_idx_loop_unfold) simp_all
  finally show ?thesis .
qed

text \<open>Without a free byte and without the key, the probe never returns.\<close>

lemma get_idx_loop_diverges:
  assumes c: "hash__cap_ok c" and len: "length mt = c" and h: "16 dvd h" "h < c"
    and nomatch: "\<And>s. s < c \<Longrightarrow> \<not> (mt ! s = msk \<and> ks ! s = key)"
    and nofree: "\<And>f. f < c \<Longrightarrow> mt ! f \<noteq> 0"
  shows "hash__get_idx_loop mt ks key c msk h = None"
proof (rule ccontr)
  assume "hash__get_idx_loop mt ks key c msk h \<noteq> None"
  then obtain y where y: "hash__get_idx_loop mt ks key c msk h = Some y"
    by auto
  define P where "P = (\<lambda>(mt' :: u8 list) (ks' :: u64 list) (key' :: u64) (m' :: nat)
      (msk' :: u8) (i' :: nat) (y' :: nat option).
      \<not> (mt' = mt \<and> ks' = ks \<and> key' = key \<and> m' = c \<and> msk' = msk \<and> 16 dvd i' \<and> i' < c))"
  have "P mt ks key c msk h y"
  proof (rule hash__get_idx_loop.raw_induct [where P = P, OF _ y], goal_cases)
    case (1 f mt' ks' key' m' msk' i' y')
    show ?case
      unfolding P_def
    proof
      assume eq: "mt' = mt \<and> ks' = ks \<and> key' = key \<and> m' = c \<and> msk' = msk \<and> 16 dvd i' \<and> i' < c"
      then have i': "16 dvd i'" "i' < c" by auto
      have rng: "i' + 16 \<le> length mt"
        using group_pos(2) [OF c i'(1), of 0] i'(2) len by simp
      have nm: "hash__group_match mt ks key msk i' = None"
        using nomatch rng len
        by (auto simp: hash__group_match_def find_upt_None_iff)
      have nf: "\<not> hash__group_free mt i'"
        using nofree rng len by (auto simp: hash__group_free_def)
      from "1"(2) eq have "f mt ks key c msk (sz_add i' 16 AND sz_sub c 1) = Some y'"
        by (simp only: get_idx_body [OF rng] nm nf option.case if_False)
      moreover have "sz_add i' 16 AND sz_sub c 1 = (i' + 16 * 1) mod c"
        using next_group [OF c i'(2)] by simp
      ultimately have "f mt ks key c msk ((i' + 16 * 1) mod c) = Some y'"
        by simp
      from "1"(1) [OF this] group_pos(1) [OF c i'(1), of 1] cap_ok_ge [OF c]
      show False unfolding P_def by simp
    qed
  qed
  with h show False unfolding P_def by simp
qed

lemma get_freetombidx_loop_result:
  assumes c: "hash__cap_ok c" and len: "length mt = c" and h: "16 dvd h" "h < c"
    and nonfull: "s < c" "\<not> hash_is_full (mt ! s)"
  shows "\<exists>t<c. hash__get_freetombidx_loop mt c h = Some ((h + t) mod c) \<and>
           \<not> hash_is_full (mt ! ((h + t) mod c)) \<and>
           (\<forall>d<t. hash_is_full (mt ! ((h + d) mod c)))"
proof -
  let ?p = "\<lambda>d. (h + 16 * d) mod c"
  let ?Q = "\<lambda>d. hash__group_freetomb mt (?p d) \<noteq> None"
  define d0 where "d0 = hash__dist c h s div 16"
  have Qd0: "?Q d0"
    unfolding hash__group_freetomb_def find_upt_None_iff d0_def
    using dist_split [OF c h nonfull(1)] nonfull(2)
    by (auto intro!: exI [of _ "hash__dist c h s mod 16"])
  then have QD: "?Q (LEAST d. ?Q d)"
    by (rule LeastI)
  have least: "\<not> ?Q d" if "d < (LEAST d. ?Q d)" for d
    using that by (rule not_less_Least)
  have le: "(LEAST d. ?Q d) \<le> d0"
    using Qd0 by (rule Least_le)
  define D where "D = (LEAST d. ?Q d)"
  from QD obtain off where off: "hash__group_freetomb mt (?p D) = Some off"
    unfolding D_def by auto
  then have o: "off < 16" "\<not> hash_is_full (mt ! (?p D + off))"
    "\<And>j. j < off \<Longrightarrow> hash_is_full (mt ! (?p D + j))"
    by (auto simp: hash__group_freetomb_def find_upt_Some_iff)
  have full_before: "hash_is_full (mt ! (?p d + j))" if "d < D" "j < 16" for d j
    using least [of d] that unfolding D_def
    by (auto simp: hash__group_freetomb_def find_upt_None_iff)
  define t where "t = 16 * D + off"
  have "hash__dist c h s < c"
    using cap_ok_ge [OF c] by (intro dist_lt) simp
  moreover obtain b where b: "c = 16 * b"
    using cap_ok_dvd [OF c] by (auto elim: dvdE)
  ultimately have "d0 < b"
    unfolding d0_def by simp
  with le o(1) have tc: "t < c"
    unfolding t_def D_def b by simp
  have pt: "?p D + off = (h + t) mod c"
    unfolding t_def by (rule group_slot [OF c h(1) o(1)])
  have "hash__get_freetombidx_loop mt c h = hash__get_freetombidx_loop mt c (?p D)"
    using least unfolding D_def by (intro get_freetombidx_loop_skip [OF c len h]) auto
  also have "\<dots> = Some (?p D + off)"
    using off group_pos(2) [OF c h(1), of D] len
    by (subst get_freetombidx_loop_unfold) simp_all
  finally have res: "hash__get_freetombidx_loop mt c h = Some ((h + t) mod c)"
    by (simp only: pt)
  have before: "hash_is_full (mt ! ((h + d) mod c))" if "d < t" for d
  proof -
    have dm: "d mod 16 < 16" by simp
    have sl: "?p (d div 16) + d mod 16 = (h + d) mod c"
      using group_slot [OF c h(1) dm, of "d div 16"] by simp
    show ?thesis
    proof (cases "d div 16 < D")
      case True
      from full_before [OF True dm] show ?thesis by (simp only: sl)
    next
      case False
      from that o(1) have "d < (D + 1) * 16"
        unfolding t_def by simp
      then have "d div 16 < D + 1"
        by (simp only: div_less_iff_less_mult zero_less_numeral)
      with False have dD: "d div 16 = D"
        by simp
      with that have "d mod 16 < off"
        unfolding t_def by presburger
      with o(3) [of "d mod 16"] sl dD show ?thesis by simp
    qed
  qed
  from tc res o(2) before show ?thesis
    by (auto simp: pt)
qed

lemma rehash_probe_result:
  assumes c: "hash__cap_ok c" and h: "h < c" and free: "f < c" "nbase ! f = 0"
  shows "\<exists>t<c. hash__rehash_probe nbase c h = Some ((h + t) mod c) \<and>
           nbase ! ((h + t) mod c) = 0 \<and> (\<forall>d<t. nbase ! ((h + d) mod c) \<noteq> 0)"
proof -
  let ?Q = "\<lambda>t. nbase ! ((h + t) mod c) = 0"
  have c0: "0 < c" using cap_ok_ge [OF c] by simp
  have Qf: "?Q (hash__dist c h f)"
    using dist_reach [OF h free(1)] free(2) by simp
  then have QT: "?Q (LEAST t. ?Q t)"
    by (rule LeastI)
  have least: "\<not> ?Q t" if "t < (LEAST t. ?Q t)" for t
    using that by (rule not_less_Least)
  have le: "(LEAST t. ?Q t) \<le> hash__dist c h f"
    using Qf by (rule Least_le)
  define T where "T = (LEAST t. ?Q t)"
  have Tc: "T < c"
    using le dist_lt [OF c0, of h f] unfolding T_def by simp
  have "hash__rehash_probe nbase c h = hash__rehash_probe nbase c ((h + T) mod c)"
    using least unfolding T_def by (intro rehash_probe_skip [OF c h]) auto
  also have "\<dots> = Some ((h + T) mod c)"
    using QT unfolding T_def
    by (subst hash__rehash_probe.simps) (simp add: hash_is_free_def)
  finally show ?thesis
    using Tc QT least unfolding T_def by auto
qed

subsection \<open>The probes on an image satisfying the invariant\<close>

lemma tag_full: "hash_is_full (hash__tag seed k)"
  by (simp add: hash_is_full_iff_bit hash__tag_def bit_or_iff)

lemma free_not_full: "hash_is_free b \<Longrightarrow> \<not> hash_is_full b"
  by (simp add: hash_is_free_def hash_is_full_def)

lemma tomb_not_full: "\<not> hash_is_full HASH__TOMB"
  by (simp add: HASH__TOMB_def hash_is_full_def)

lemma tomb_not_free: "\<not> hash_is_free HASH__TOMB"
  by (simp add: HASH__TOMB_def hash_is_free_def)

lemma probe_path_iff:
  assumes g: "hash__home seed (info_capacity m) (keys m ! i) < info_capacity m"
    and i: "i < info_capacity m"
  shows "hash_on_probe_path seed m i \<longleftrightarrow>
    (\<exists>t<info_capacity m. i = (hash__home seed (info_capacity m) (keys m ! i) + t) mod info_capacity m \<and>
       (\<forall>d<t. meta m ! ((hash__home seed (info_capacity m) (keys m ! i) + d) mod info_capacity m) \<noteq> 0))"
    (is "?L \<longleftrightarrow> ?R")
proof
  let ?c = "info_capacity m" and ?g = "hash__home seed (info_capacity m) (keys m ! i)"
  assume ?L
  then have "\<forall>d<hash__dist ?c ?g i. meta m ! ((?g + d) mod ?c) \<noteq> 0"
    by (simp add: hash_on_probe_path_def Let_def hash_is_free_def)
  moreover have "hash__dist ?c ?g i < ?c"
    using i by (intro dist_lt) simp
  moreover have "i = (?g + hash__dist ?c ?g i) mod ?c"
    using dist_reach [OF g i] by simp
  ultimately show ?R by blast
next
  let ?c = "info_capacity m" and ?g = "hash__home seed (info_capacity m) (keys m ! i)"
  assume ?R
  then obtain t where t: "t < ?c" "i = (?g + t) mod ?c" "\<forall>d<t. meta m ! ((?g + d) mod ?c) \<noteq> 0"
    by blast
  have "hash__dist ?c ?g i = t"
    using dist_unique [OF g t(1)] t(2) by simp
  with t(3) show ?L
    by (simp add: hash_on_probe_path_def Let_def hash_is_free_def)
qed

lemma slot_of_Some_iff:
  assumes "hash_keys_distinct m"
  shows "hash_slot_of m k = Some s \<longleftrightarrow>
         s < info_capacity m \<and> hash_is_full (meta m ! s) \<and> keys m ! s = k"
proof
  assume "hash_slot_of m k = Some s"
  then show "s < info_capacity m \<and> hash_is_full (meta m ! s) \<and> keys m ! s = k"
    by (auto simp: hash_slot_of_def find_upt_Some_iff)
next
  assume s: "s < info_capacity m \<and> hash_is_full (meta m ! s) \<and> keys m ! s = k"
  then have "hash_slot_of m k \<noteq> None"
    by (auto simp: hash_slot_of_def find_upt_None_iff)
  then obtain s' where s': "hash_slot_of m k = Some s'" by auto
  then have "s' < info_capacity m \<and> hash_is_full (meta m ! s') \<and> keys m ! s' = k"
    by (auto simp: hash_slot_of_def find_upt_Some_iff)
  with s assms have "s' = s"
    unfolding hash_keys_distinct_def by blast
  with s' show "hash_slot_of m k = Some s" by simp
qed

lemma slot_of_None_iff:
  "hash_slot_of m k = None \<longleftrightarrow>
     (\<forall>s<info_capacity m. hash_is_full (meta m ! s) \<longrightarrow> keys m ! s \<noteq> k)"
  by (auto simp: hash_slot_of_def find_upt_None_iff)

lemma get_idx_start:
  assumes "hash__cap_ok (info_capacity m)"
  shows "hash__get_idx seed m k =
         hash__get_idx_loop (meta m) (keys m) k (info_capacity m) (hash__tag seed k)
           (hash__home seed (info_capacity m) k)"
  by (simp only: hash__get_idx_def Let_def start_index [OF assms] hash__tag_def)

lemma get_freetombidx_start:
  assumes "hash__cap_ok (info_capacity m)"
  shows "hash__get_freetombidx seed m k =
         hash__get_freetombidx_loop (meta m) (info_capacity m) (hash__home seed (info_capacity m) k)"
  by (simp only: hash__get_freetombidx_def Let_def start_index [OF assms])

lemma group_before:
  fixes t :: nat
  assumes "d < t div 16" and "j < 16"
  shows "16 * d + j < t"
proof -
  from assms(1) have "Suc d \<le> t div 16"
    by simp
  then have "16 * Suc d \<le> 16 * (t div 16)"
    by (rule mult_le_mono2)
  also have "\<dots> \<le> t"
    by simp
  finally show ?thesis
    using assms(2) by simp
qed

lemma get_idx_present:
  assumes st: "hash_struct seed m"
    and s: "s < info_capacity m" "hash_is_full (meta m ! s)" "keys m ! s = k"
  shows "hash__get_idx seed m k = Some (Some s)"
proof -
  let ?c = "info_capacity m" and ?mt = "meta m" and ?ks = "keys m"
  let ?h = "hash__home seed ?c k" and ?msk = "hash__tag seed k"
  from st have c: "hash__cap_ok ?c" and len: "length ?mt = ?c"
    and slots: "hash_slots_ok seed m" and dist: "hash_keys_distinct m"
    by (auto simp: hash_struct_def hash_wf_def)
  have h: "16 dvd ?h" "?h < ?c"
    by (rule home_props [OF c])+
  have c0: "0 < ?c" using cap_ok_ge [OF c] by simp
  from slots s have tag: "?mt ! s = ?msk" and path: "hash_on_probe_path seed m s"
    by (auto simp: hash_slots_ok_def)
  define t where "t = hash__dist ?c ?h s"
  have tc: "t < ?c" unfolding t_def by (rule dist_lt [OF c0])
  from path s(3) have nz: "?mt ! ((?h + d) mod ?c) \<noteq> 0" if "d < t" for d
    using that by (simp add: hash_on_probe_path_def Let_def hash_is_free_def t_def)
  let ?p = "\<lambda>d. (?h + 16 * d) mod ?c"
  define D where "D = t div 16"
  have at_s: "?p D + t mod 16 = s"
    unfolding D_def t_def by (rule dist_split [OF c h s(1)])
  have only_s: "q = s" if "q < ?c" "?mt ! q = ?msk" "?ks ! q = k" for q
  proof -
    from that(2) have "hash_is_full (?mt ! q)"
      by (simp add: tag_full)
    with dist that(1,3) s show ?thesis
      unfolding hash_keys_distinct_def by blast
  qed
  have skip: "hash__group_match ?mt ?ks k ?msk (?p d) = None \<and> \<not> hash__group_free ?mt (?p d)"
    if d: "d < D" for d
  proof
    show "hash__group_match ?mt ?ks k ?msk (?p d) = None"
    proof (rule ccontr)
      assume "hash__group_match ?mt ?ks k ?msk (?p d) \<noteq> None"
      then obtain off where "hash__group_match ?mt ?ks k ?msk (?p d) = Some off"
        by auto
      then have off: "off < 16" "?mt ! (?p d + off) = ?msk" "?ks ! (?p d + off) = k"
        by (auto simp: hash__group_match_def find_upt_Some_iff)
      have q: "?p d + off = (?h + (16 * d + off)) mod ?c"
        by (rule group_slot [OF c h(1) off(1)])
      have "16 * d + off < t"
        using d off(1) unfolding D_def by (rule group_before)
      then have lt: "16 * d + off < ?c" and ne: "16 * d + off \<noteq> t"
        using tc by auto
      have "?p d + off = s"
        using off group_in_range [OF c h(1) off(1), of d] by (intro only_s) auto
      then have "hash__dist ?c ?h s = 16 * d + off"
        using dist_unique [OF h(2) lt] q by simp
      with ne show False by (simp add: t_def)
    qed
  next
    show "\<not> hash__group_free ?mt (?p d)"
    proof
      assume "hash__group_free ?mt (?p d)"
      then obtain j where j: "j < 16" "?mt ! (?p d + j) = 0"
        by (auto simp: hash__group_free_def)
      have "16 * d + j < t"
        using d j(1) unfolding D_def by (rule group_before)
      from nz [OF this] j(2) group_slot [OF c h(1) j(1), of d] show False
        by simp
    qed
  qed
  have tm: "t mod 16 < 16" by simp
  have "?mt ! (?p D + t mod 16) = ?msk \<and> ?ks ! (?p D + t mod 16) = k"
    using tag s(3) by (simp only: at_s)
  with tm have "hash__group_match ?mt ?ks k ?msk (?p D) \<noteq> None"
    unfolding hash__group_match_def find_upt_None_iff by blast
  then obtain off where off: "hash__group_match ?mt ?ks k ?msk (?p D) = Some off"
    by auto
  then have o: "off < 16" "?mt ! (?p D + off) = ?msk" "?ks ! (?p D + off) = k"
    by (auto simp: hash__group_match_def find_upt_Some_iff)
  have found: "?p D + off = s"
    using o group_in_range [OF c h(1) o(1), of D] by (intro only_s) auto
  have "hash__get_idx seed m k = hash__get_idx_loop ?mt ?ks k ?c ?msk ?h"
    by (rule get_idx_start [OF c])
  also have "\<dots> = hash__get_idx_loop ?mt ?ks k ?c ?msk (?p D)"
    using skip by (intro get_idx_loop_skip [OF c len h]) auto
  also have "\<dots> = Some (Some (?p D + off))"
    using off group_pos(2) [OF c h(1), of D] len
    by (subst get_idx_loop_unfold) simp_all
  finally show ?thesis
    by (simp only: found)
qed

lemma get_idx_eq:
  assumes st: "hash_struct seed m"
  shows "hash__get_idx seed m k =
     (case hash_slot_of m k of
        Some s \<Rightarrow> Some (Some s)
      | None \<Rightarrow> if hash_has_free m then Some None else None)"
proof (cases "hash_slot_of m k")
  case (Some s)
  then have "s < info_capacity m" "hash_is_full (meta m ! s)" "keys m ! s = k"
    by (auto simp: hash_slot_of_def find_upt_Some_iff)
  from get_idx_present [OF st this] Some show ?thesis by simp
next
  case None
  let ?c = "info_capacity m"
  from st have c: "hash__cap_ok ?c" and len: "length (meta m) = ?c"
    by (auto simp: hash_struct_def hash_wf_def)
  have h: "16 dvd hash__home seed ?c k" "hash__home seed ?c k < ?c"
    by (rule home_props [OF c])+
  have nomatch: "\<not> (meta m ! s = hash__tag seed k \<and> keys m ! s = k)" if "s < ?c" for s
    using None that tag_full [of seed k] by (auto simp: slot_of_None_iff)
  show ?thesis
  proof (cases "hash_has_free m")
    case True
    then obtain f where "f < ?c" "meta m ! f = 0"
      by (auto simp: hash_has_free_def hash_is_free_def)
    from get_idx_loop_absent [OF c len h nomatch this] None True show ?thesis
      by (simp add: get_idx_start [OF c])
  next
    case False
    then have "meta m ! f \<noteq> 0" if "f < ?c" for f
      using that by (auto simp: hash_has_free_def hash_is_free_def)
    from get_idx_loop_diverges [OF c len h nomatch this] None False show ?thesis
      by (simp add: get_idx_start [OF c])
  qed
qed

subsection \<open>Updates of one slot\<close>

lemma count_update:
  "idx < length mt \<Longrightarrow>
   length (filter P (mt[idx := b])) + (if P (mt ! idx) then 1 else 0) =
   length (filter P mt) + (if P b then 1 else 0)"
proof (induction mt arbitrary: idx)
  case Nil
  then show ?case by simp
next
  case (Cons x xs)
  show ?case
  proof (cases idx)
    case 0
    then show ?thesis by simp
  next
    case (Suc n)
    with Cons.prems have "n < length xs" by simp
    from Cons.IH [OF this] Suc show ?thesis by simp
  qed
qed

lemma count_full_update_add:
  assumes "idx < length mt" and "\<not> hash_is_full (mt ! idx)" and "hash_is_full b"
  shows "length (filter hash_is_full (mt[idx := b])) = Suc (length (filter hash_is_full mt))"
  using count_update [OF assms(1), of hash_is_full b] assms(2,3) by simp

lemma count_full_update_del:
  assumes "idx < length mt" and "hash_is_full (mt ! idx)" and "\<not> hash_is_full b"
  shows "Suc (length (filter hash_is_full (mt[idx := b]))) = length (filter hash_is_full mt)"
  using count_update [OF assms(1), of hash_is_full b] assms(2,3) by simp

lemma count_full_le: "length (filter hash_is_full mt) \<le> length mt"
  by (rule length_filter_le)

lemma count_full_lt_ex:
  assumes "length (filter hash_is_full mt) < length mt"
  shows "\<exists>s<length mt. \<not> hash_is_full (mt ! s)"
proof (rule ccontr)
  assume "\<not> ?thesis"
  then have "\<forall>x\<in>set mt. hash_is_full x"
    by (auto simp: in_set_conv_nth)
  then have "filter hash_is_full mt = mt"
    by (simp add: filter_True)
  with assms show False by simp
qed

lemma struct_cong:
  assumes "meta m' = meta m" "keys m' = keys m" "info_capacity m' = info_capacity m"
    "length (vals m') = length (vals m)"
  shows "hash_struct seed m' = hash_struct seed m"
  using assms
  by (simp add: hash_struct_def hash_wf_def hash_slots_ok_def hash_on_probe_path_def
      hash_keys_distinct_def)

lemma tag_nonzero: "hash__tag seed k \<noteq> 0"
  using tag_full [of seed k] by (auto simp: hash_is_full_def)

text \<open>
  Writing a non-free byte over a slot keeps every probe path: the bytes that were not
  free are still not free.
\<close>

lemma slots_ok_mono:
  assumes st: "hash_struct seed m"
    and cap: "info_capacity m' = info_capacity m"
    and mt: "meta m' = (meta m)[idx := b]" and b: "b \<noteq> 0"
    and i: "i < info_capacity m" "i \<noteq> idx" "hash_is_full (meta m' ! i)"
    and ks: "keys m' ! i = keys m ! i"
  shows "meta m' ! i = hash__tag seed (keys m' ! i) \<and> hash_on_probe_path seed m' i"
proof -
  let ?c = "info_capacity m"
  from st have c: "hash__cap_ok ?c" and len: "length (meta m) = ?c"
    and slots: "hash_slots_ok seed m"
    by (auto simp: hash_struct_def hash_wf_def)
  let ?g = "hash__home seed ?c (keys m ! i)"
  have g: "?g < ?c" by (rule home_props(2) [OF c])
  have same: "meta m' ! i = meta m ! i"
    using i(2) mt by simp
  with i slots have tag: "meta m ! i = hash__tag seed (keys m ! i)"
    and path: "hash_on_probe_path seed m i"
    by (auto simp: hash_slots_ok_def)
  from path obtain t where t: "t < ?c" "i = (?g + t) mod ?c"
    "\<forall>d<t. meta m ! ((?g + d) mod ?c) \<noteq> 0"
    using probe_path_iff [of seed m i] g i(1) by auto
  have "meta m' ! ((?g + d) mod ?c) \<noteq> 0" if "d < t" for d
  proof (cases "(?g + d) mod ?c = idx")
    case True
    have "0 < ?c" using cap_ok_ge [OF c] by simp
    then have "(?g + d) mod ?c < ?c" by simp
    with True len have "idx < length (meta m)" by simp
    with True b mt show ?thesis by simp
  next
    case False
    with t(3) that mt show ?thesis by simp
  qed
  with t(1,2) have "hash_on_probe_path seed m' i"
    using probe_path_iff [of seed m' i] g i(1) cap ks by auto
  with same tag ks show ?thesis by simp
qed

lemma struct_insert:
  assumes st: "hash_struct seed m"
    and m': "info_capacity m' = info_capacity m" "meta m' = (meta m)[idx := hash__tag seed k]"
      "keys m' = (keys m)[idx := k]" "length (vals m') = length (vals m)"
    and idx: "idx < info_capacity m"
    and absent: "hash_slot_of m k = None"
    and t: "t < info_capacity m"
      "idx = (hash__home seed (info_capacity m) k + t) mod info_capacity m"
      "\<forall>d<t. meta m ! ((hash__home seed (info_capacity m) k + d) mod info_capacity m) \<noteq> 0"
  shows "hash_struct seed m'"
proof -
  let ?c = "info_capacity m"
  from st have c: "hash__cap_ok ?c" and len: "length (meta m) = ?c" "length (keys m) = ?c"
    "length (vals m) = ?c" and dist: "hash_keys_distinct m"
    by (auto simp: hash_struct_def hash_wf_def)
  have wf: "hash_wf m'"
    using c len m' by (simp add: hash_wf_def)
  have at_idx: "meta m' ! idx = hash__tag seed k" "keys m' ! idx = k"
    using idx len m' by simp_all
  have other: "meta m' ! i = meta m ! i" "keys m' ! i = keys m ! i" if "i \<noteq> idx" for i
    using that m' by simp_all
  let ?g = "hash__home seed ?c k"
  have g: "?g < ?c" by (rule home_props(2) [OF c])
  have nz: "meta m' ! ((?g + d) mod ?c) \<noteq> 0" if "d < t" for d
  proof (cases "(?g + d) mod ?c = idx")
    case True
    with at_idx tag_nonzero show ?thesis by simp
  next
    case False
    with t(3) that other show ?thesis by simp
  qed
  have slots: "hash_slots_ok seed m'"
    unfolding hash_slots_ok_def
  proof (intro allI impI)
    fix i assume i: "i < info_capacity m'" "hash_is_full (meta m' ! i)"
    show "meta m' ! i = hash__tag seed (keys m' ! i) \<and> hash_on_probe_path seed m' i"
    proof (cases "i = idx")
      case True
      have "hash_on_probe_path seed m' idx"
        using probe_path_iff [of seed m' idx] g idx t(1,2) nz m'(1) at_idx(2) by auto
      with True at_idx show ?thesis by simp
    next
      case False
      with i m'(1) other show ?thesis
        by (intro slots_ok_mono [OF st m'(1,2) tag_nonzero]) auto
    qed
  qed
  have distinct: "hash_keys_distinct m'"
    unfolding hash_keys_distinct_def
  proof (intro allI impI)
    fix i j assume i: "i < info_capacity m'" and j: "j < info_capacity m'"
      and f: "hash_is_full (meta m' ! i) \<and> hash_is_full (meta m' ! j) \<and> keys m' ! i = keys m' ! j"
    have no: "keys m ! q \<noteq> k" if "q < ?c" "q \<noteq> idx" "hash_is_full (meta m' ! q)" for q
      using absent that other by (auto simp: slot_of_None_iff)
    show "i = j"
    proof (cases "i = idx")
      case True
      show ?thesis
      proof (rule ccontr)
        assume ne: "i \<noteq> j"
        with True f at_idx(2) other(2) [of j] have "keys m ! j = k" by simp
        moreover have "keys m ! j \<noteq> k"
          using ne True f j m'(1) by (intro no) auto
        ultimately show False by simp
      qed
    next
      case False
      show ?thesis
      proof (cases "j = idx")
        case True
        with False f at_idx(2) other(2) [of i] have "keys m ! i = k" by simp
        moreover have "keys m ! i \<noteq> k"
          using False f i m'(1) by (intro no) auto
        ultimately show ?thesis by simp
      next
        case jn: False
        from False jn f other have "hash_is_full (meta m ! i) \<and> hash_is_full (meta m ! j) \<and>
            keys m ! i = keys m ! j"
          by simp
        with dist i j m'(1) show ?thesis
          unfolding hash_keys_distinct_def by simp
      qed
    qed
  qed
  from wf slots distinct show ?thesis
    by (simp add: hash_struct_def)
qed

lemma struct_tomb:
  assumes st: "hash_struct seed m"
    and m': "info_capacity m' = info_capacity m" "meta m' = (meta m)[idx := HASH__TOMB]"
      "keys m' = keys m" "length (vals m') = length (vals m)"
    and idx: "idx < info_capacity m"
  shows "hash_struct seed m'"
proof -
  let ?c = "info_capacity m"
  from st have c: "hash__cap_ok ?c" and len: "length (meta m) = ?c" "length (keys m) = ?c"
    "length (vals m) = ?c" and dist: "hash_keys_distinct m"
    by (auto simp: hash_struct_def hash_wf_def)
  have wf: "hash_wf m'"
    using c len m' by (simp add: hash_wf_def)
  have tz: "HASH__TOMB \<noteq> 0" by (simp add: HASH__TOMB_def)
  have at_idx: "\<not> hash_is_full (meta m' ! idx)"
    using idx len m' tomb_not_full by simp
  have other: "meta m' ! i = meta m ! i" if "i \<noteq> idx" for i
    using that m' by simp
  have slots: "hash_slots_ok seed m'"
    unfolding hash_slots_ok_def
  proof (intro allI impI)
    fix i assume i: "i < info_capacity m'" "hash_is_full (meta m' ! i)"
    with at_idx have "i \<noteq> idx" by auto
    with i m' show "meta m' ! i = hash__tag seed (keys m' ! i) \<and> hash_on_probe_path seed m' i"
      by (intro slots_ok_mono [OF st m'(1,2) tz]) auto
  qed
  have distinct: "hash_keys_distinct m'"
    unfolding hash_keys_distinct_def
  proof (intro allI impI)
    fix i j assume i: "i < info_capacity m'" and j: "j < info_capacity m'"
      and f: "hash_is_full (meta m' ! i) \<and> hash_is_full (meta m' ! j) \<and> keys m' ! i = keys m' ! j"
    with at_idx have "i \<noteq> idx" "j \<noteq> idx" by auto
    with f other m'(3) have "hash_is_full (meta m ! i) \<and> hash_is_full (meta m ! j) \<and>
        keys m ! i = keys m ! j"
      by simp
    with dist i j m'(1) show "i = j"
      unfolding hash_keys_distinct_def by simp
  qed
  from wf slots distinct show ?thesis
    by (simp add: hash_struct_def)
qed

subsection \<open>The write of put\<close>

lemma slot_of_cong:
  assumes "meta m' = meta m" "keys m' = keys m" "info_capacity m' = info_capacity m"
  shows "hash_slot_of m' k = hash_slot_of m k"
  using assms by (simp add: hash_slot_of_def)

lemma lookup_insert:
  assumes st: "hash_struct seed m" and st': "hash_struct seed m'"
    and m': "info_capacity m' = info_capacity m" "meta m' = (meta m)[idx := b]"
      "keys m' = (keys m)[idx := k]" "vals m' = (vals m)[idx := v]"
    and b: "hash_is_full b"
    and idx: "idx < info_capacity m" "\<not> hash_is_full (meta m ! idx)"
  shows "hash_lookup m' = (hash_lookup m)(k \<mapsto> v)"
proof
  fix k'
  let ?c = "info_capacity m"
  from st have len: "length (meta m) = ?c" "length (keys m) = ?c" "length (vals m) = ?c"
    and dist: "hash_keys_distinct m"
    by (auto simp: hash_struct_def hash_wf_def)
  from st' have dist': "hash_keys_distinct m'"
    by (auto simp: hash_struct_def)
  have at_idx: "meta m' ! idx = b" "keys m' ! idx = k" "vals m' ! idx = v"
    using idx len m' by simp_all
  have other: "meta m' ! i = meta m ! i" "keys m' ! i = keys m ! i" "vals m' ! i = vals m ! i"
    if "i \<noteq> idx" for i
    using that m' by simp_all
  show "hash_lookup m' k' = ((hash_lookup m)(k \<mapsto> v)) k'"
  proof (cases "k' = k")
    case True
    have "hash_slot_of m' k = Some idx"
      using idx(1) at_idx b m'(1) by (simp add: slot_of_Some_iff [OF dist'])
    with True at_idx show ?thesis
      by (simp add: hash_lookup_def)
  next
    case False
    show ?thesis
    proof (cases "hash_slot_of m k'")
      case None
      have "hash_slot_of m' k' = None"
        unfolding slot_of_None_iff
      proof (intro allI impI)
        fix s assume s: "s < info_capacity m'" "hash_is_full (meta m' ! s)"
        show "keys m' ! s \<noteq> k'"
        proof (cases "s = idx")
          case True
          with at_idx False show ?thesis by simp
        next
          case sn: False
          with s other m'(1) None show ?thesis
            by (simp add: slot_of_None_iff)
        qed
      qed
      with None False show ?thesis
        by (simp add: hash_lookup_def)
    next
      case (Some s)
      then have s: "s < ?c" "hash_is_full (meta m ! s)" "keys m ! s = k'"
        by (simp_all add: slot_of_Some_iff [OF dist])
      with idx(2) have sn: "s \<noteq> idx" by auto
      with s other m'(1) have "hash_slot_of m' k' = Some s"
        by (simp add: slot_of_Some_iff [OF dist'])
      with Some False sn other show ?thesis
        by (simp add: hash_lookup_def)
    qed
  qed
qed

lemma lookup_overwrite:
  assumes st: "hash_struct seed m"
    and m': "info_capacity m' = info_capacity m" "meta m' = meta m" "keys m' = keys m"
      "vals m' = (vals m)[s := v]"
    and s: "hash_slot_of m k = Some s"
  shows "hash_lookup m' = (hash_lookup m)(k \<mapsto> v)"
proof
  fix k'
  let ?c = "info_capacity m"
  from st have len: "length (vals m) = ?c" and dist: "hash_keys_distinct m"
    by (auto simp: hash_struct_def hash_wf_def)
  from s have sp: "s < ?c" "hash_is_full (meta m ! s)" "keys m ! s = k"
    by (simp_all add: slot_of_Some_iff [OF dist])
  have so: "hash_slot_of m' k' = hash_slot_of m k'"
    using m' by (intro slot_of_cong) auto
  show "hash_lookup m' k' = ((hash_lookup m)(k \<mapsto> v)) k'"
  proof (cases "k' = k")
    case True
    with s so sp(1) len m'(4) show ?thesis
      by (simp add: hash_lookup_def)
  next
    case False
    show ?thesis
    proof (cases "hash_slot_of m k'")
      case None
      with so False show ?thesis by (simp add: hash_lookup_def)
    next
      case (Some s')
      then have "keys m ! s' = k'"
        by (simp add: slot_of_Some_iff [OF dist])
      with sp(3) False have "s' \<noteq> s" by auto
      with Some so False m'(4) show ?thesis
        by (simp add: hash_lookup_def)
    qed
  qed
qed

lemma lookup_tomb:
  assumes st: "hash_struct seed m" and st': "hash_struct seed m'"
    and m': "info_capacity m' = info_capacity m" "meta m' = (meta m)[s := HASH__TOMB]"
      "keys m' = keys m" "vals m' = vals m"
    and s: "hash_slot_of m k = Some s"
  shows "hash_lookup m' = (hash_lookup m)(k := None)"
proof
  fix k'
  let ?c = "info_capacity m"
  from st have len: "length (meta m) = ?c" and dist: "hash_keys_distinct m"
    by (auto simp: hash_struct_def hash_wf_def)
  from st' have dist': "hash_keys_distinct m'"
    by (auto simp: hash_struct_def)
  from s have sp: "s < ?c" "hash_is_full (meta m ! s)" "keys m ! s = k"
    by (simp_all add: slot_of_Some_iff [OF dist])
  have at_s: "\<not> hash_is_full (meta m' ! s)"
    using sp(1) len m'(2) tomb_not_full by simp
  have other: "meta m' ! i = meta m ! i" if "i \<noteq> s" for i
    using that m'(2) by simp
  have full': "i \<noteq> s \<and> hash_is_full (meta m ! i)" if "hash_is_full (meta m' ! i)" for i
    using that at_s other [of i] by (cases "i = s") auto
  show "hash_lookup m' k' = ((hash_lookup m)(k := None)) k'"
  proof (cases "k' = k")
    case True
    have "hash_slot_of m' k = None"
      unfolding slot_of_None_iff
    proof (intro allI impI)
      fix i assume i: "i < info_capacity m'" "hash_is_full (meta m' ! i)"
      from full' [OF i(2)] have ns: "i \<noteq> s" and fi: "hash_is_full (meta m ! i)" by auto
      show "keys m' ! i \<noteq> k"
      proof
        assume "keys m' ! i = k"
        with m'(3) sp(3) have "keys m ! i = keys m ! s" by simp
        with dist i(1) m'(1) sp(1,2) fi have "i = s"
          unfolding hash_keys_distinct_def by simp
        with ns show False by simp
      qed
    qed
    with True show ?thesis by (simp add: hash_lookup_def)
  next
    case False
    show ?thesis
    proof (cases "hash_slot_of m k'")
      case None
      have "hash_slot_of m' k' = None"
        unfolding slot_of_None_iff
      proof (intro allI impI)
        fix i assume i: "i < info_capacity m'" "hash_is_full (meta m' ! i)"
        from full' [OF i(2)] None i(1) m'(1,3) show "keys m' ! i \<noteq> k'"
          by (simp add: slot_of_None_iff)
      qed
      with None False show ?thesis by (simp add: hash_lookup_def)
    next
      case (Some s')
      then have s': "s' < ?c" "hash_is_full (meta m ! s')" "keys m ! s' = k'"
        by (simp_all add: slot_of_Some_iff [OF dist])
      with sp(3) False have "s' \<noteq> s" by auto
      with s' other m'(1,3) have "hash_slot_of m' k' = Some s'"
        by (simp add: slot_of_Some_iff [OF dist'])
      with Some False m'(4) show ?thesis by (simp add: hash_lookup_def)
    qed
  qed
qed

lemma inv_size_bound:
  assumes "hash_inv seed m"
  shows "info_size m \<le> info_capacity m" and "info_capacity m \<le> 2 ^ 63"
proof -
  from assms have c: "hash__cap_ok (info_capacity m)" and len: "length (meta m) = info_capacity m"
    and sz: "info_size m = length (filter hash_is_full (meta m))"
    by (auto simp: hash_inv_def hash_struct_def hash_wf_def)
  show "info_size m \<le> info_capacity m"
    using count_full_le [of "meta m"] sz len by simp
  show "info_capacity m \<le> 2 ^ 63"
    by (rule cap_ok_lt [OF c])
qed

lemma has_free_nonfull:
  assumes "hash_has_free m"
  shows "\<exists>s<info_capacity m. \<not> hash_is_full (meta m ! s)"
  using assms free_not_full by (auto simp: hash_has_free_def)

lemma get_freetombidx_result:
  assumes st: "hash_struct seed m" and nf: "s < info_capacity m" "\<not> hash_is_full (meta m ! s)"
  shows "\<exists>t<info_capacity m.
           hash__get_freetombidx seed m k =
             Some ((hash__home seed (info_capacity m) k + t) mod info_capacity m) \<and>
           \<not> hash_is_full (meta m ! ((hash__home seed (info_capacity m) k + t) mod info_capacity m)) \<and>
           (\<forall>d<t. hash_is_full (meta m ! ((hash__home seed (info_capacity m) k + d) mod info_capacity m)))"
proof -
  from st have c: "hash__cap_ok (info_capacity m)" and len: "length (meta m) = info_capacity m"
    by (auto simp: hash_struct_def hash_wf_def)
  show ?thesis
    unfolding get_freetombidx_start [OF c]
    by (rule get_freetombidx_loop_result [OF c len home_props [OF c] nf])
qed

lemma put_slot_hit:
  assumes inv: "hash_inv seed m" and s: "hash_slot_of m k = Some s"
  shows "hash__put_slot seed m k v = Some (m\<lparr>vals := (vals m)[s := v]\<rparr>)"
    and "hash_inv seed (m\<lparr>vals := (vals m)[s := v]\<rparr>)"
    and "hash_lookup (m\<lparr>vals := (vals m)[s := v]\<rparr>) = (hash_lookup m)(k \<mapsto> v)"
proof -
  from inv have st: "hash_struct seed m" by (simp add: hash_inv_def)
  show "hash__put_slot seed m k v = Some (m\<lparr>vals := (vals m)[s := v]\<rparr>)"
    by (simp add: hash__put_slot_def Let_def get_idx_eq [OF st] s)
  have "hash_struct seed (m\<lparr>vals := (vals m)[s := v]\<rparr>) = hash_struct seed m"
    by (rule struct_cong) simp_all
  with inv show "hash_inv seed (m\<lparr>vals := (vals m)[s := v]\<rparr>)"
    by (simp add: hash_inv_def)
  show "hash_lookup (m\<lparr>vals := (vals m)[s := v]\<rparr>) = (hash_lookup m)(k \<mapsto> v)"
    by (rule lookup_overwrite [OF st _ _ _ _ s]) simp_all
qed

lemma put_slot_miss:
  assumes inv: "hash_inv seed m" and absent: "hash_slot_of m k = None" and free: "hash_has_free m"
  shows "\<exists>idx<info_capacity m. \<not> hash_is_full (meta m ! idx) \<and>
     hash__put_slot seed m k v =
       Some (m\<lparr>meta := (meta m)[idx := hash__tag seed k], keys := (keys m)[idx := k],
               vals := (vals m)[idx := v], info_size := info_size m + 1\<rparr>) \<and>
     hash_inv seed (m\<lparr>meta := (meta m)[idx := hash__tag seed k], keys := (keys m)[idx := k],
               vals := (vals m)[idx := v], info_size := info_size m + 1\<rparr>) \<and>
     hash_lookup (m\<lparr>meta := (meta m)[idx := hash__tag seed k], keys := (keys m)[idx := k],
               vals := (vals m)[idx := v], info_size := info_size m + 1\<rparr>) = (hash_lookup m)(k \<mapsto> v)"
proof -
  let ?c = "info_capacity m" and ?h = "hash__home seed (info_capacity m) k"
  from inv have st: "hash_struct seed m"
    and sz: "info_size m = length (filter hash_is_full (meta m))"
    by (simp_all add: hash_inv_def)
  from st have c: "hash__cap_ok ?c" and len: "length (meta m) = ?c"
    by (auto simp: hash_struct_def hash_wf_def)
  from has_free_nonfull [OF free] obtain s0 where "s0 < ?c" "\<not> hash_is_full (meta m ! s0)"
    by auto
  from get_freetombidx_result [OF st this, of k] obtain t where t: "t < ?c"
    "hash__get_freetombidx seed m k = Some ((?h + t) mod ?c)"
    "\<not> hash_is_full (meta m ! ((?h + t) mod ?c))"
    "\<forall>d<t. hash_is_full (meta m ! ((?h + d) mod ?c))"
    by blast
  define idx where "idx = (?h + t) mod ?c"
  let ?m' = "m\<lparr>meta := (meta m)[idx := hash__tag seed k], keys := (keys m)[idx := k],
               vals := (vals m)[idx := v], info_size := info_size m + 1\<rparr>"
  have idxc: "idx < ?c"
    using cap_ok_ge [OF c] unfolding idx_def by simp
  have "info_size m + 1 < 2 ^ 64"
    using inv_size_bound [OF inv] by simp
  then have szadd: "sz_add (info_size m) 1 = info_size m + 1"
    by (rule sz_add_eq)
  have put: "hash__put_slot seed m k v = Some ?m'"
    using t(2) szadd
    by (simp add: hash__put_slot_def Let_def get_idx_eq [OF st] absent free idx_def hash__tag_def
        del: One_nat_def)
  have nz: "\<forall>d<t. meta m ! ((?h + d) mod ?c) \<noteq> 0"
    using t(4) by (auto simp: hash_is_full_def)
  have st': "hash_struct seed ?m'"
    by (rule struct_insert [OF st _ _ _ _ idxc absent t(1) _ nz]) (simp_all add: idx_def)
  have "length (filter hash_is_full ((meta m)[idx := hash__tag seed k])) =
      Suc (length (filter hash_is_full (meta m)))"
    using idxc len t(3) tag_full unfolding idx_def by (intro count_full_update_add) auto
  with st' sz have inv': "hash_inv seed ?m'"
    by (simp add: hash_inv_def)
  have lk: "hash_lookup ?m' = (hash_lookup m)(k \<mapsto> v)"
    using t(3) by (intro lookup_insert [OF st st' _ _ _ _ tag_full idxc]) (simp_all add: idx_def)
  from idxc t(3) put inv' lk show ?thesis
    unfolding idx_def by blast
qed

lemma put_slot_diverges:
  assumes inv: "hash_inv seed m" and absent: "hash_slot_of m k = None"
    and nofree: "\<not> hash_has_free m"
  shows "hash__put_slot seed m k v = None"
proof -
  from inv have st: "hash_struct seed m" by (simp add: hash_inv_def)
  show ?thesis
    by (simp add: hash__put_slot_def Let_def get_idx_eq [OF st] absent nofree)
qed

subsection \<open>Deletion\<close>

lemma has_free_tomb:
  assumes "meta m' = (meta m)[s := HASH__TOMB]" "info_capacity m' = info_capacity m"
    "hash_is_full (meta m ! s)"
  shows "hash_has_free m' = hash_has_free m"
proof -
  have "hash_is_free (meta m' ! i) = hash_is_free (meta m ! i)" for i
  proof (cases "i = s")
    case True
    show ?thesis
    proof (cases "s < length (meta m)")
      case lt: True
      with True assms(1,3) tomb_not_free free_not_full show ?thesis by auto
    next
      case False
      with True assms(1) show ?thesis by (simp add: list_update_beyond)
    qed
  next
    case False
    with assms(1) show ?thesis by simp
  qed
  with assms(2) show ?thesis
    by (simp add: hash_has_free_def)
qed

lemma del_hit:
  assumes inv: "hash_inv seed m" and s: "hash_slot_of m k = Some s"
  shows "hash_del seed (Some m) k fv =
           Some (Ok (True,
                     Some (m\<lparr>meta := (meta m)[s := HASH__TOMB], info_size := info_size m - 1\<rparr>),
                     if fv then [vals m ! s] else []))"
    and "hash_inv seed (m\<lparr>meta := (meta m)[s := HASH__TOMB], info_size := info_size m - 1\<rparr>)"
    and "hash_lookup (m\<lparr>meta := (meta m)[s := HASH__TOMB], info_size := info_size m - 1\<rparr>) =
           (hash_lookup m)(k := None)"
    and "0 < info_size m"
proof -
  let ?m' = "m\<lparr>meta := (meta m)[s := HASH__TOMB], info_size := info_size m - 1\<rparr>"
  from inv have st: "hash_struct seed m"
    and sz: "info_size m = length (filter hash_is_full (meta m))"
    by (simp_all add: hash_inv_def)
  from st have len: "length (meta m) = info_capacity m" and dist: "hash_keys_distinct m"
    by (auto simp: hash_struct_def hash_wf_def)
  from s have sp: "s < info_capacity m" "hash_is_full (meta m ! s)"
    by (simp_all add: slot_of_Some_iff [OF dist])
  have cnt: "Suc (length (filter hash_is_full ((meta m)[s := HASH__TOMB]))) =
      length (filter hash_is_full (meta m))"
    using sp len tomb_not_full by (intro count_full_update_del) auto
  with sz show pos: "0 < info_size m" by linarith
  have "info_size m < 2 ^ 64"
    using inv_size_bound [OF inv] by simp
  with pos have "sz_sub (info_size m) 1 = info_size m - 1"
    by (intro sz_sub_eq) auto
  then show "hash_del seed (Some m) k fv =
           Some (Ok (True, Some ?m', if fv then [vals m ! s] else []))"
    by (simp add: hash_del_def get_idx_eq [OF st] s del: One_nat_def)
  have st': "hash_struct seed ?m'"
    by (rule struct_tomb [OF st _ _ _ _ sp(1)]) simp_all
  with cnt sz show "hash_inv seed ?m'"
    by (simp add: hash_inv_def)
  show "hash_lookup ?m' = (hash_lookup m)(k := None)"
    by (rule lookup_tomb [OF st st' _ _ _ _ s]) simp_all
qed

lemma del_miss:
  assumes inv: "hash_inv seed m" and absent: "hash_slot_of m k = None"
  shows "hash_del seed (Some m) k fv =
           (if hash_has_free m then Some (Ok (False, Some m, [])) else None)"
proof -
  from inv have st: "hash_struct seed m" by (simp add: hash_inv_def)
  show ?thesis
    by (simp add: hash_del_def get_idx_eq [OF st] absent)
qed

subsection \<open>Rehash\<close>

lemma lookup_upto_all: "hash_lookup_upto m (info_capacity m) = hash_lookup m"
  by (rule ext) (simp add: hash_lookup_upto_def hash_lookup_def hash_slot_of_def)

lemma lookup_upto_Suc:
  "hash_lookup_upto m (Suc n) k =
     (case hash_lookup_upto m n k of
        Some v \<Rightarrow> Some v
      | None \<Rightarrow> if hash_is_full (meta m ! n) \<and> keys m ! n = k then Some (vals m ! n) else None)"
  by (simp add: hash_lookup_upto_def find_append_opt split: option.splits)

lemma lookup_upto_None_iff:
  "hash_lookup_upto m n k = None \<longleftrightarrow> (\<forall>j<n. hash_is_full (meta m ! j) \<longrightarrow> keys m ! j \<noteq> k)"
  by (auto simp: hash_lookup_upto_def find_upt_None_iff)

lemma lookup_None_iff: "hash_lookup m k = None \<longleftrightarrow> hash_slot_of m k = None"
  by (simp add: hash_lookup_def)

lemma rehash_loop_append:
  "hash__rehash_loop seed m (xs @ ys) nm =
     (case hash__rehash_loop seed m xs nm of
        None \<Rightarrow> None
      | Some nm' \<Rightarrow> hash__rehash_loop seed m ys nm')"
  by (induction xs arbitrary: nm) (auto split: option.splits)

lemma rehash_slot_skip:
  "\<not> hash_is_full (meta m ! i) \<Longrightarrow> hash__rehash_slot seed m i nm = Some nm"
  by (simp add: hash__rehash_slot_def)

lemma rehash_slot_full:
  assumes st: "hash_struct seed m" and i: "i < info_capacity m" "hash_is_full (meta m ! i)"
    and stn: "hash_struct seed nm" and nt: "hash_no_tomb nm"
    and room: "length (filter hash_is_full (meta nm)) < info_capacity nm"
    and absent: "hash_slot_of nm (keys m ! i) = None"
  shows "\<exists>idx<info_capacity nm. \<not> hash_is_full (meta nm ! idx) \<and>
     hash__rehash_slot seed m i nm =
       Some (nm\<lparr>meta := (meta nm)[idx := meta m ! i], keys := (keys nm)[idx := keys m ! i],
                vals := (vals nm)[idx := vals m ! i]\<rparr>) \<and>
     hash_struct seed (nm\<lparr>meta := (meta nm)[idx := meta m ! i],
                keys := (keys nm)[idx := keys m ! i], vals := (vals nm)[idx := vals m ! i]\<rparr>)"
proof -
  let ?nc = "info_capacity nm" and ?k = "keys m ! i"
  let ?h = "hash__home seed (info_capacity nm) (keys m ! i)"
  from stn have c: "hash__cap_ok ?nc" and len: "length (meta nm) = ?nc"
    by (auto simp: hash_struct_def hash_wf_def)
  from st i have tag: "meta m ! i = hash__tag seed ?k"
    by (auto simp: hash_struct_def hash_slots_ok_def)
  from room len have "\<exists>s<length (meta nm). \<not> hash_is_full (meta nm ! s)"
    by (intro count_full_lt_ex) simp
  with nt len obtain f where f: "f < ?nc" "meta nm ! f = 0"
    by (auto simp: hash_no_tomb_def hash_is_free_def)
  from rehash_probe_result [OF c home_props(2) [OF c] f, of seed ?k]
  obtain t where t: "t < ?nc" "hash__rehash_probe (meta nm) ?nc ?h = Some ((?h + t) mod ?nc)"
    "meta nm ! ((?h + t) mod ?nc) = 0" "\<forall>d<t. meta nm ! ((?h + d) mod ?nc) \<noteq> 0"
    by blast
  define idx where "idx = (?h + t) mod ?nc"
  let ?nm' = "nm\<lparr>meta := (meta nm)[idx := meta m ! i], keys := (keys nm)[idx := keys m ! i],
                vals := (vals nm)[idx := vals m ! i]\<rparr>"
  have idxc: "idx < ?nc"
    using cap_ok_ge [OF c] unfolding idx_def by simp
  have nf: "\<not> hash_is_full (meta nm ! idx)"
    using t(3) unfolding idx_def by (simp add: hash_is_full_def)
  have res: "hash__rehash_slot seed m i nm = Some ?nm'"
    using i(2) t(2)
    by (simp add: hash__rehash_slot_def Let_def start_index [OF c] idx_def del: One_nat_def)
  have "hash_struct seed ?nm'"
    by (rule struct_insert [OF stn _ _ _ _ idxc absent t(1) _ t(4)]) (simp_all add: idx_def tag)
  with idxc nf res show ?thesis
    unfolding idx_def by blast
qed

text \<open>
  The state of the new image after the slots below \<open>n\<close> of the old one are rehashed.
\<close>

lemma rehash_prefix:
  assumes inv: "hash_inv seed m" and start: "hash__rehashed seed m 0 nm0 nm0"
    and cap: "info_capacity m \<le> info_capacity nm0" and n: "n \<le> info_capacity m"
  shows "\<exists>nm. hash__rehash_loop seed m [0..<n] nm0 = Some nm \<and> hash__rehashed seed m n nm0 nm"
  using n
proof (induction n)
  case 0
  with start show ?case by simp
next
  case (Suc n)
  then obtain nm where loop: "hash__rehash_loop seed m [0..<n] nm0 = Some nm"
    and J: "hash__rehashed seed m n nm0 nm"
    by auto
  from inv have st: "hash_struct seed m" by (simp add: hash_inv_def)
  then have len: "length (meta m) = info_capacity m" and dist: "hash_keys_distinct m"
    by (auto simp: hash_struct_def hash_wf_def)
  from Suc.prems have nc: "n < info_capacity m" by simp
  have tk: "take (Suc n) (meta m) = take n (meta m) @ [meta m ! n]"
    using nc len by (simp add: take_Suc_conv_app_nth)
  have step: "hash__rehash_loop seed m [0..<Suc n] nm0 = hash__rehash_slot seed m n nm"
    by (simp add: rehash_loop_append loop split: option.splits)
  show ?case
  proof (cases "hash_is_full (meta m ! n)")
    case False
    have "hash_lookup_upto m (Suc n) = hash_lookup_upto m n"
      using False by (intro ext) (simp add: lookup_upto_Suc split: option.splits)
    with J False tk have "hash__rehashed seed m (Suc n) nm0 nm"
      by (simp add: hash__rehashed_def)
    with step False show ?thesis
      by (simp add: rehash_slot_skip)
  next
    case True
    let ?k = "keys m ! n"
    from J have stn: "hash_struct seed nm" and nt: "hash_no_tomb nm"
      and capn: "info_capacity nm = info_capacity nm0"
      and cnt: "length (filter hash_is_full (meta nm)) = length (filter hash_is_full (take n (meta m)))"
      and lk: "hash_lookup nm = hash_lookup_upto m n"
      by (simp_all add: hash__rehashed_def)
    have before: "keys m ! j \<noteq> ?k" if "j < n" "hash_is_full (meta m ! j)" for j
    proof
      assume "keys m ! j = ?k"
      with dist that nc True have "j = n"
        unfolding hash_keys_distinct_def by simp
      with that show False by simp
    qed
    then have upto_None: "hash_lookup_upto m n ?k = None"
      by (simp add: lookup_upto_None_iff)
    with lk have absent: "hash_slot_of nm ?k = None"
      by (simp add: lookup_None_iff [symmetric])
    have "length (filter hash_is_full (take n (meta m))) \<le> n"
      using length_filter_le [of hash_is_full "take n (meta m)"] by simp
    with cnt nc cap capn have room: "length (filter hash_is_full (meta nm)) < info_capacity nm"
      by simp
    from rehash_slot_full [OF st nc True stn nt room absent]
    obtain idx where idx: "idx < info_capacity nm" "\<not> hash_is_full (meta nm ! idx)"
      and res: "hash__rehash_slot seed m n nm =
        Some (nm\<lparr>meta := (meta nm)[idx := meta m ! n], keys := (keys nm)[idx := keys m ! n],
                vals := (vals nm)[idx := vals m ! n]\<rparr>)"
      and st': "hash_struct seed (nm\<lparr>meta := (meta nm)[idx := meta m ! n],
                keys := (keys nm)[idx := keys m ! n], vals := (vals nm)[idx := vals m ! n]\<rparr>)"
      by blast
    let ?nm' = "nm\<lparr>meta := (meta nm)[idx := meta m ! n], keys := (keys nm)[idx := keys m ! n],
                vals := (vals nm)[idx := vals m ! n]\<rparr>"
    from stn have lenn: "length (meta nm) = info_capacity nm"
      by (auto simp: hash_struct_def hash_wf_def)
    have nt': "hash_no_tomb ?nm'"
      unfolding hash_no_tomb_def
    proof (intro allI impI)
      fix p assume p: "p < info_capacity ?nm'" "\<not> hash_is_full (meta ?nm' ! p)"
      with True idx(1) lenn have "p \<noteq> idx" by auto
      with p nt show "hash_is_free (meta ?nm' ! p)"
        by (simp add: hash_no_tomb_def)
    qed
    have cnt': "length (filter hash_is_full (meta ?nm')) =
        length (filter hash_is_full (take (Suc n) (meta m)))"
      using count_full_update_add [of idx "meta nm" "meta m ! n"] idx lenn True cnt tk
      by simp
    have "hash_lookup ?nm' = (hash_lookup nm)(?k \<mapsto> vals m ! n)"
      by (rule lookup_insert [OF stn st' _ _ _ _ True idx]) simp_all
    also have "\<dots> = hash_lookup_upto m (Suc n)"
    proof
      fix k'
      show "((hash_lookup nm)(?k \<mapsto> vals m ! n)) k' = hash_lookup_upto m (Suc n) k'"
        using upto_None True by (cases "k' = ?k") (auto simp: lk lookup_upto_Suc split: option.splits)
    qed
    finally have lk': "hash_lookup ?nm' = hash_lookup_upto m (Suc n)" .
    from J st' nt' cnt' lk' have "hash__rehashed seed m (Suc n) nm0 ?nm'"
      by (simp add: hash__rehashed_def)
    with step res show ?thesis by simp
  qed
qed

lemma image_rehashed:
  assumes "hash__cap_ok nc"
  shows "hash__rehashed seed m 0 (hash__image blk nc sz vs) (hash__image blk nc sz vs)"
proof -
  let ?nm = "hash__image blk nc sz vs"
  have mt: "meta ?nm ! p = 0" if "p < nc" for p
    using that by (simp add: hash__image_def HASH__FREE_def)
  have nofull: "\<not> hash_is_full (meta ?nm ! p)" if "p < nc" for p
    using mt [OF that] by (simp add: hash_is_full_def)
  have capn: "info_capacity ?nm = nc"
    by (simp add: hash__image_def)
  have "hash_wf ?nm"
    using assms by (simp add: hash_wf_def hash__image_def)
  moreover have "hash_slots_ok seed ?nm"
    using nofull by (simp add: hash_slots_ok_def capn)
  moreover have "hash_keys_distinct ?nm"
    using nofull by (simp add: hash_keys_distinct_def capn)
  moreover have "hash_no_tomb ?nm"
    using mt by (simp add: hash_no_tomb_def capn hash_is_free_def)
  moreover have "hash_lookup ?nm = hash_lookup_upto m 0"
    using nofull
    by (intro ext) (simp add: hash_lookup_def hash_slot_of_def hash_lookup_upto_def capn
        find_upt_None_iff)
  moreover have "filter hash_is_full (meta ?nm) = []"
    by (simp add: hash__image_def HASH__FREE_def hash_is_full_def)
  ultimately show ?thesis
    by (simp add: hash__rehashed_def hash_struct_def)
qed

lemma no_tomb_has_free:
  assumes st: "hash_struct seed m" and nt: "hash_no_tomb m"
    and room: "length (filter hash_is_full (meta m)) < info_capacity m"
  shows "hash_has_free m"
proof -
  from st have len: "length (meta m) = info_capacity m"
    by (auto simp: hash_struct_def hash_wf_def)
  with room have "\<exists>s<length (meta m). \<not> hash_is_full (meta m ! s)"
    by (intro count_full_lt_ex) simp
  with nt len show ?thesis
    by (auto simp: hash_no_tomb_def hash_has_free_def)
qed

lemma resize_ok:
  assumes inv: "hash_inv seed m" and nc: "hash__cap_ok nc" and cap: "info_capacity m \<le> nc"
    and al: "hash__malloc al nc (info_val_size m) = Some blk"
  shows "\<exists>m'. hash__resize seed al m nc = Some m' \<and> hash_inv seed m' \<and> hash_no_tomb m' \<and>
     info_capacity m' = nc \<and> info_size m' = info_size m \<and>
     info_val_size m' = info_val_size m \<and> hash_lookup m' = hash_lookup m \<and>
     (info_size m < nc \<longrightarrow> hash_has_free m')"
proof -
  let ?nm0 = "hash__image blk nc (info_size m) (info_val_size m)"
  have capn: "info_capacity ?nm0 = nc" "info_size ?nm0 = info_size m"
    "info_val_size ?nm0 = info_val_size m"
    by (simp_all add: hash__image_def)
  from inv have sz: "info_size m = length (filter hash_is_full (meta m))"
    and len: "length (meta m) = info_capacity m"
    by (auto simp: hash_inv_def hash_struct_def hash_wf_def)
  from rehash_prefix [OF inv image_rehashed [OF nc], of blk "info_size m" "info_val_size m"
      "info_capacity m"] cap capn
  obtain m' where loop: "hash__rehash_loop seed m [0..<info_capacity m] ?nm0 = Some m'"
    and J: "hash__rehashed seed m (info_capacity m) ?nm0 m'"
    by auto
  from J capn have st': "hash_struct seed m'" and nt: "hash_no_tomb m'"
    and c': "info_capacity m' = nc" and s': "info_size m' = info_size m"
    and v': "info_val_size m' = info_val_size m"
    and cnt: "length (filter hash_is_full (meta m')) = length (filter hash_is_full (meta m))"
    and lk: "hash_lookup m' = hash_lookup m"
    using len by (simp_all add: hash__rehashed_def lookup_upto_all)
  have inv': "hash_inv seed m'"
    using st' cnt s' sz by (simp add: hash_inv_def)
  have fr: "hash_has_free m'" if "info_size m < nc"
    using that cnt sz c' by (intro no_tomb_has_free [OF st' nt]) simp
  have "hash__resize seed al m nc = Some m'"
    using al loop by (simp add: hash__resize_def Let_def hash__rehash_def)
  with inv' nt c' s' v' lk fr show ?thesis by blast
qed

lemma resize_fail:
  "hash__malloc al nc (info_val_size m) = None \<Longrightarrow> hash__resize seed al m nc = Some m"
  by (simp add: hash__resize_def Let_def)

subsection \<open>Lookup, put and the capacity of reserve\<close>

lemma get_eq:
  assumes "hash_inv seed m"
  shows "hash_get seed (Some m) k =
     (case hash_slot_of m k of
        Some s \<Rightarrow> Some (Ok (Some s))
      | None \<Rightarrow> if hash_has_free m then Some (Ok None) else None)"
proof -
  from assms have st: "hash_struct seed m" by (simp add: hash_inv_def)
  show ?thesis
    by (simp add: hash_get_def get_idx_eq [OF st] split: option.splits)
qed

lemma get_val_eq:
  assumes "hash_inv seed m"
  shows "hash_get_val seed (Some m) k =
     (case hash_lookup m k of
        Some v \<Rightarrow> Some (Ok (Some v))
      | None \<Rightarrow> if hash_has_free m then Some (Ok None) else None)"
  by (simp add: hash_get_val_def get_eq [OF assms] hash_lookup_def split: option.splits)

lemma image_inv:
  assumes "hash__cap_ok nc"
  shows "hash_inv seed (hash__image blk nc 0 vs)" and "hash_has_free (hash__image blk nc 0 vs)"
    and "hash_lookup (hash__image blk nc 0 vs) = Map.empty"
    and "hash_no_tomb (hash__image blk nc 0 vs)"
proof -
  let ?nm = "hash__image blk nc 0 vs"
  from image_rehashed [OF assms, of seed undefined blk 0 vs]
  have st: "hash_struct seed ?nm" and nt: "hash_no_tomb ?nm"
    and cnt: "length (filter hash_is_full (meta ?nm)) = 0"
    and lk: "hash_lookup ?nm = hash_lookup_upto undefined 0"
    by (simp_all add: hash__rehashed_def)
  have sz: "info_size ?nm = 0" and cp: "info_capacity ?nm = nc"
    by (simp_all add: hash__image_def)
  from st cnt sz show "hash_inv seed ?nm"
    by (simp add: hash_inv_def)
  show "hash_has_free ?nm"
    using cnt cp cap_ok_ge [OF assms] by (intro no_tomb_has_free [OF st nt]) simp
  show "hash_lookup ?nm = Map.empty"
    unfolding lk by (rule ext) (simp add: hash_lookup_upto_def)
  show "hash_no_tomb ?nm" by (rule nt)
qed

lemma cap_ok_16: "hash__cap_ok 16"
  unfolding hash__cap_ok_def by (rule exI [of _ 4]) simp

lemma cap_ok_double:
  assumes "hash__cap_ok c" and "c < 2 ^ 63"
  shows "hash__cap_ok (2 * c)"
proof -
  from assms(1) obtain e where e: "4 \<le> e" "e < 64" "c = 2 ^ e"
    by (auto simp: hash__cap_ok_def)
  have "e \<noteq> 63"
    using assms(2) e(3) by auto
  with e(2) have "Suc e < 64" by simp
  moreover have "2 * c = 2 ^ Suc e"
    using e(3) by simp
  ultimately show ?thesis
    using e(1) unfolding hash__cap_ok_def by (intro exI [of _ "Suc e"]) simp
qed

lemma put_slot_ok:
  assumes inv: "hash_inv seed m" and ok: "hash_slot_of m k \<noteq> None \<or> hash_has_free m"
  shows "\<exists>m1. hash__put_slot seed m k v = Some m1 \<and> hash_inv seed m1 \<and>
     hash_lookup m1 = (hash_lookup m)(k \<mapsto> v) \<and>
     info_capacity m1 = info_capacity m \<and> info_val_size m1 = info_val_size m \<and>
     info_size m1 = (if hash_slot_of m k = None then info_size m + 1 else info_size m)"
proof (cases "hash_slot_of m k")
  case None
  with ok have "hash_has_free m" by simp
  from put_slot_miss [OF inv None this, of v] None show ?thesis
    by auto
next
  case (Some s)
  from put_slot_hit [OF inv Some, of v] Some show ?thesis
    by auto
qed

lemma put_slot_Some_ok:
  assumes inv: "hash_inv seed m" and "hash__put_slot seed m k v = Some m1"
  shows "hash_slot_of m k \<noteq> None \<or> hash_has_free m"
  using assms put_slot_diverges [OF inv, of k v] by auto

lemma load_test:
  assumes "hash__cap_ok c"
  shows "sz_mul (c div 4) 3 = (c div 4) * 3"
proof -
  have "c div 4 * 3 < 2 ^ 64"
    using cap_ok_lt [OF assms] by simp
  then show ?thesis by (rule sz_mul_eq)
qed

lemma double_cap:
  assumes "c < 2 ^ 63"
  shows "sz_mul c 2 = 2 * c"
proof -
  have "c * 2 < 2 ^ 64"
    using assms by simp
  then show ?thesis by (simp add: sz_mul_eq)
qed

lemma put_ok:
  assumes inv: "hash_inv seed m" and cb: "info_capacity m < 2 ^ 63"
    and al: "\<And>n. al n \<noteq> None"
    and ok: "hash_slot_of m k \<noteq> None \<or> hash_has_free m"
  shows "\<exists>m1 m'. hash__put_slot seed m k v = Some m1 \<and>
     hash_put seed al vsz (Some m) k v = Some (Ok (Some m')) \<and>
     hash_inv seed m' \<and> hash_lookup m' = (hash_lookup m)(k \<mapsto> v) \<and>
     info_size m' = info_size m1 \<and>
     info_size m1 = (if hash_slot_of m k = None then info_size m + 1 else info_size m) \<and>
     (if (info_capacity m div 4) * 3 \<le> info_size m1
      then info_capacity m' = 2 * info_capacity m \<and> hash_no_tomb m' \<and> hash_has_free m'
      else m' = m1)"
proof -
  let ?c = "info_capacity m"
  from put_slot_ok [OF inv ok, of v]
  obtain m1 where m1: "hash__put_slot seed m k v = Some m1" "hash_inv seed m1"
    "hash_lookup m1 = (hash_lookup m)(k \<mapsto> v)" "info_capacity m1 = ?c"
    "info_val_size m1 = info_val_size m"
    "info_size m1 = (if hash_slot_of m k = None then info_size m + 1 else info_size m)"
    by blast
  from inv have c: "hash__cap_ok ?c"
    by (auto simp: hash_inv_def hash_struct_def hash_wf_def)
  have lt: "sz_mul (info_capacity m1 div 4) 3 = (?c div 4) * 3"
    using load_test [OF c] m1(4) by simp
  have dc: "sz_mul (info_capacity m1) 2 = 2 * ?c"
    using double_cap [OF cb] m1(4) by simp
  show ?thesis
  proof (cases "(?c div 4) * 3 \<le> info_size m1")
    case False
    then have "hash_put seed al vsz (Some m) k v = Some (Ok (Some m1))"
      by (simp add: hash_put_def m1(1) lt)
    with m1 False show ?thesis by auto
  next
    case True
    have "hash__malloc al (2 * ?c) (info_val_size m1) \<noteq> None"
      using al by (simp add: hash__malloc_def Let_def)
    then obtain blk where blk: "hash__malloc al (2 * ?c) (info_val_size m1) = Some blk"
      by blast
    have "info_size m1 \<le> ?c"
      using inv_size_bound(1) [OF m1(2)] m1(4) by simp
    moreover have "0 < ?c" using cap_ok_ge [OF c] by simp
    ultimately have room: "info_size m1 < 2 * ?c" by simp
    from resize_ok [OF m1(2) cap_ok_double [OF c cb] _ blk] m1(4) room
    obtain m' where m': "hash__resize seed al m1 (2 * ?c) = Some m'" "hash_inv seed m'"
      "hash_no_tomb m'" "info_capacity m' = 2 * ?c" "info_size m' = info_size m1"
      "hash_lookup m' = hash_lookup m1" "hash_has_free m'"
      by auto
    have "hash_put seed al vsz (Some m) k v = Some (Ok (Some m'))"
      using True by (simp add: hash_put_def m1(1) lt dc m'(1))
    with m1 m' True show ?thesis by auto
  qed
qed

subsection \<open>The capacity computed by reserve\<close>

lemma reserve_true_cap_run:
  assumes e: "cap \<le> 2 ^ e" "\<And>e'. e' < e \<Longrightarrow> 2 ^ e' < cap" and e63: "e \<le> 63" and j: "j \<le> e"
  shows "hash_reserve_true_cap (2 ^ j) cap = Some (2 ^ e)"
  using j
proof (induction "e - j" arbitrary: j)
  case 0
  then have "j = e" by simp
  with e(1) show ?case
    by (subst hash_reserve_true_cap.simps) simp
next
  case (Suc d)
  then have lt: "j < e" by simp
  from Suc have IH: "hash_reserve_true_cap (2 ^ Suc j) cap = Some (2 ^ e)"
    by (intro Suc.hyps(1)) auto
  have "(2::nat) ^ Suc j \<le> 2 ^ 63"
    using lt e63 by (intro power_increasing) auto
  then have "push_bit 1 (2 ^ j :: nat) mod 2 ^ 64 = 2 ^ Suc j"
    by (simp add: push_bit_eq_mult)
  with e(2) [OF lt] IH show ?case
    by (subst hash_reserve_true_cap.simps) (simp del: power_Suc)
qed

lemma reserve_true_cap_result:
  assumes "cap \<le> 2 ^ 63"
  shows "\<exists>e\<le>63. hash_reserve_true_cap 1 cap = Some (2 ^ e) \<and> cap \<le> 2 ^ e \<and>
           (\<forall>e'<e. 2 ^ e' < cap)"
proof -
  let ?Q = "\<lambda>e. cap \<le> (2::nat) ^ e"
  define E where "E = (LEAST e. ?Q e)"
  have QE: "?Q E" unfolding E_def using assms by (rule LeastI)
  have least: "2 ^ e' < cap" if "e' < E" for e'
    using not_less_Least [of e' ?Q] that unfolding E_def by simp
  have E63: "E \<le> 63" unfolding E_def using assms by (rule Least_le)
  from reserve_true_cap_run [OF QE least E63, of 0] QE least E63 show ?thesis
    by auto
qed

lemma reserve_true_cap_diverges:
  assumes "2 ^ 63 < cap"
  shows "hash_reserve_true_cap 1 cap = None"
proof (rule ccontr)
  assume "hash_reserve_true_cap 1 cap \<noteq> None"
  then obtain y where y: "hash_reserve_true_cap 1 cap = Some y" by auto
  define P where "P = (\<lambda>(tc :: nat) (cap' :: nat) (y' :: nat).
      \<not> (cap' = cap \<and> (tc = 0 \<or> (\<exists>j\<le>63. tc = 2 ^ j))))"
  have "P 1 cap y"
  proof (rule hash_reserve_true_cap.raw_induct [where P = P, OF _ y], goal_cases)
    case (1 f tc cap' y')
    show ?case
      unfolding P_def
    proof
      assume a: "cap' = cap \<and> (tc = 0 \<or> (\<exists>j\<le>63. tc = 2 ^ j))"
      have small: "tc < cap"
      proof -
        from a consider "tc = 0" | j where "j \<le> 63" "tc = 2 ^ j" by auto
        then show ?thesis
        proof cases
          case 1
          with assms show ?thesis by simp
        next
          case 2
          have "(2::nat) ^ j \<le> 2 ^ 63"
            using 2(1) by (intro power_increasing) auto
          with 2(2) assms show ?thesis by simp
        qed
      qed
      have nxt: "push_bit 1 tc mod 2 ^ 64 = 0 \<or> (\<exists>j\<le>63. push_bit 1 tc mod 2 ^ 64 = 2 ^ j)"
      proof -
        from a consider "tc = 0" | j where "j \<le> 63" "tc = 2 ^ j" by auto
        then show ?thesis
        proof cases
          case 1
          then show ?thesis by simp
        next
          case 2
          show ?thesis
          proof (cases "j = 63")
            case True
            with 2 show ?thesis by (simp add: push_bit_eq_mult)
          next
            case False
            with 2 have sj: "Suc j \<le> 63" by simp
            then have "(2::nat) ^ Suc j \<le> 2 ^ 63"
              by (intro power_increasing) auto
            then have "push_bit 1 tc mod 2 ^ 64 = 2 ^ Suc j"
              using 2 by (simp add: push_bit_eq_mult)
            with sj show ?thesis by blast
          qed
        qed
      qed
      from "1"(2) a small have "f (push_bit 1 tc mod 2 ^ 64) cap = Some y'"
        by simp
      from "1"(1) [OF this] nxt show False
        unfolding P_def by blast
    qed
  qed
  then show False
    unfolding P_def by (auto intro: exI [of _ 0])
qed

subsection \<open>Closed forms of the probe loops\<close>

lemma get_freetombidx_body:
  assumes "i + 16 \<le> length mt"
  shows "(let vmeta = mm_load_si128 mt i;
              vmask = mm_and_si128 vmeta (mm_set1_epi8 0x80);
              freetomb = mm_movemask_epi8 (mm_cmpeq_epi8 vmask mm_setzero_si128)
          in if freetomb \<noteq> 0
             then map_option (\<lambda>off. i + off) (BitScanForward freetomb)
             else f (sz_add i 16 AND sz_sub m 1)) =
         (case hash__group_freetomb mt i of
            Some off \<Rightarrow> Some (i + off)
          | None \<Rightarrow> f (sz_add i 16 AND sz_sub m 1))"
proof -
  let ?ft = "mm_movemask_epi8 (mm_cmpeq_epi8
               (mm_and_si128 (mm_load_si128 mt i) (mm_set1_epi8 0x80)) mm_setzero_si128)"
  have ft: "bit ?ft j \<longleftrightarrow> j < 16 \<and> \<not> hash_is_full (mt ! (i + j))" for j
    by (rule bit_freetomb_bitmap [OF assms])
  have "BitScanForward ?ft = find (bit ?ft) [0..<16]"
    unfolding BitScanForward_def by (rule find_upt_widen) (simp_all add: ft)
  also have "\<dots> = hash__group_freetomb mt i"
    unfolding hash__group_freetomb_def by (rule find_cong) (auto simp: ft)
  finally have bsf: "BitScanForward ?ft = hash__group_freetomb mt i" .
  have ftz: "(?ft \<noteq> 0) = (hash__group_freetomb mt i \<noteq> None)"
    by (auto simp: nat_eq_0_iff_no_bit hash__group_freetomb_def find_upt_None_iff ft
        simp del: neq0_conv)
  have "(let vmeta = mm_load_si128 mt i;
              vmask = mm_and_si128 vmeta (mm_set1_epi8 0x80);
              freetomb = mm_movemask_epi8 (mm_cmpeq_epi8 vmask mm_setzero_si128)
          in if freetomb \<noteq> 0
             then map_option (\<lambda>off. i + off) (BitScanForward freetomb)
             else f (sz_add i 16 AND sz_sub m 1)) =
     (if hash__group_freetomb mt i \<noteq> None
      then map_option (\<lambda>off. i + off) (hash__group_freetomb mt i)
      else f (sz_add i 16 AND sz_sub m 1))"
    by (simp only: Let_def bsf ftz)
  then show ?thesis
    by (cases "hash__group_freetomb mt i") simp_all
qed

text \<open>A slot is in the group \<open>dist div 16\<close> steps after the home group.\<close>

lemma slot_in_group:
  assumes c: "hash__cap_ok c" and h: "16 dvd h" "h < c" and s: "s < c"
  shows "\<exists>d<c div 16. \<exists>j<16. (h + 16 * d) mod c + j = s"
proof -
  have "0 < c" using cap_ok_ge [OF c] by simp
  then have "hash__dist c h s < c" by (rule dist_lt)
  moreover obtain b where b: "c = 16 * b"
    using cap_ok_dvd [OF c] by (auto elim: dvdE)
  ultimately have "hash__dist c h s div 16 < c div 16" by simp
  moreover have "hash__dist c h s mod 16 < 16" by simp
  ultimately show ?thesis
    using dist_split [OF c h s] by blast
qed

lemma get_idx_loop_eval:
  assumes c: "hash__cap_ok c" and len: "length mt = c" and h: "16 dvd h" "h < c"
  shows "hash__get_idx_loop mt ks key c msk h =
     (case find (\<lambda>d. hash__group_match mt ks key msk ((h + 16 * d) mod c) \<noteq> None \<or>
                      hash__group_free mt ((h + 16 * d) mod c)) [0..<c div 16] of
        None \<Rightarrow> None
      | Some d \<Rightarrow>
          (case hash__group_match mt ks key msk ((h + 16 * d) mod c) of
             Some off \<Rightarrow> Some (Some ((h + 16 * d) mod c + off))
           | None \<Rightarrow> Some None))"
proof -
  let ?p = "\<lambda>d. (h + 16 * d) mod c"
  let ?stop = "\<lambda>d. hash__group_match mt ks key msk (?p d) \<noteq> None \<or> hash__group_free mt (?p d)"
  show ?thesis
  proof (cases "find ?stop [0..<c div 16]")
    case None
    then have ns: "\<not> ?stop d" if "d < c div 16" for d
      using that by (simp add: find_upt_None_iff)
    have nomatch: "\<not> (mt ! s = msk \<and> ks ! s = key)" if "s < c" for s
    proof -
      from slot_in_group [OF c h that] obtain d j where dj: "d < c div 16" "j < 16" "?p d + j = s"
        by blast
      from ns [OF dj(1)] have "hash__group_match mt ks key msk (?p d) = None" by simp
      with dj(2,3) show ?thesis
        by (auto simp: hash__group_match_def find_upt_None_iff)
    qed
    have nofree: "mt ! s \<noteq> 0" if "s < c" for s
    proof -
      from slot_in_group [OF c h that] obtain d j where dj: "d < c div 16" "j < 16" "?p d + j = s"
        by blast
      from ns [OF dj(1)] have "\<not> hash__group_free mt (?p d)" by simp
      with dj(2,3) show ?thesis
        by (auto simp: hash__group_free_def)
    qed
    from get_idx_loop_diverges [OF c len h nomatch nofree] None show ?thesis
      by simp
  next
    case (Some d)
    then have d: "?stop d" "\<And>d'. d' < d \<Longrightarrow> \<not> ?stop d'"
      by (auto simp: find_upt_Some_iff)
    have "hash__get_idx_loop mt ks key c msk h = hash__get_idx_loop mt ks key c msk (?p d)"
      using d(2) by (intro get_idx_loop_skip [OF c len h]) auto
    also have "\<dots> = (case hash__group_match mt ks key msk (?p d) of
             Some off \<Rightarrow> Some (Some (?p d + off))
           | None \<Rightarrow> Some None)"
      using d(1) group_pos(2) [OF c h(1), of d] len
      by (subst get_idx_loop_unfold) (auto split: option.splits)
    finally show ?thesis
      using Some by simp
  qed
qed

lemma get_freetombidx_loop_diverges:
  assumes c: "hash__cap_ok c" and len: "length mt = c" and h: "16 dvd h" "h < c"
    and allfull: "\<And>s. s < c \<Longrightarrow> hash_is_full (mt ! s)"
  shows "hash__get_freetombidx_loop mt c h = None"
proof (rule ccontr)
  assume "hash__get_freetombidx_loop mt c h \<noteq> None"
  then obtain y where y: "hash__get_freetombidx_loop mt c h = Some y"
    by auto
  define P where "P = (\<lambda>(mt' :: u8 list) (m' :: nat) (i' :: nat) (y' :: nat).
      \<not> (mt' = mt \<and> m' = c \<and> 16 dvd i' \<and> i' < c))"
  have "P mt c h y"
  proof (rule hash__get_freetombidx_loop.raw_induct [where P = P, OF _ y], goal_cases)
    case (1 f mt' m' i' y')
    show ?case
      unfolding P_def
    proof
      assume eq: "mt' = mt \<and> m' = c \<and> 16 dvd i' \<and> i' < c"
      then have i': "16 dvd i'" "i' < c" by auto
      have rng: "i' + 16 \<le> length mt"
        using group_pos(2) [OF c i'(1), of 0] i'(2) len by simp
      have nm: "hash__group_freetomb mt i' = None"
        using allfull rng len
        by (auto simp: hash__group_freetomb_def find_upt_None_iff)
      from "1"(2) eq have "f mt c (sz_add i' 16 AND sz_sub c 1) = Some y'"
        by (simp only: get_freetombidx_body [OF rng] nm option.case)
      moreover have "sz_add i' 16 AND sz_sub c 1 = (i' + 16 * 1) mod c"
        using next_group [OF c i'(2)] by simp
      ultimately have "f mt c ((i' + 16 * 1) mod c) = Some y'"
        by simp
      from "1"(1) [OF this] group_pos(1) [OF c i'(1), of 1] cap_ok_ge [OF c]
      show False unfolding P_def by simp
    qed
  qed
  with h show False unfolding P_def by simp
qed

lemma get_freetombidx_loop_eval:
  assumes c: "hash__cap_ok c" and len: "length mt = c" and h: "16 dvd h" "h < c"
  shows "hash__get_freetombidx_loop mt c h =
     (case find (\<lambda>d. hash__group_freetomb mt ((h + 16 * d) mod c) \<noteq> None) [0..<c div 16] of
        None \<Rightarrow> None
      | Some d \<Rightarrow>
          map_option (\<lambda>off. (h + 16 * d) mod c + off)
            (hash__group_freetomb mt ((h + 16 * d) mod c)))"
proof -
  let ?p = "\<lambda>d. (h + 16 * d) mod c"
  let ?stop = "\<lambda>d. hash__group_freetomb mt (?p d) \<noteq> None"
  show ?thesis
  proof (cases "find ?stop [0..<c div 16]")
    case None
    then have ns: "\<not> ?stop d" if "d < c div 16" for d
      using that by (simp add: find_upt_None_iff)
    have allfull: "hash_is_full (mt ! s)" if "s < c" for s
    proof -
      from slot_in_group [OF c h that] obtain d j where dj: "d < c div 16" "j < 16" "?p d + j = s"
        by blast
      from ns [OF dj(1)] have "hash__group_freetomb mt (?p d) = None" by simp
      with dj(2,3) show ?thesis
        by (auto simp: hash__group_freetomb_def find_upt_None_iff)
    qed
    from get_freetombidx_loop_diverges [OF c len h allfull] None show ?thesis
      by simp
  next
    case (Some d)
    then have d: "?stop d" "\<And>d'. d' < d \<Longrightarrow> \<not> ?stop d'"
      by (auto simp: find_upt_Some_iff)
    have "hash__get_freetombidx_loop mt c h = hash__get_freetombidx_loop mt c (?p d)"
      using d(2) by (intro get_freetombidx_loop_skip [OF c len h]) auto
    also have "\<dots> = map_option (\<lambda>off. ?p d + off) (hash__group_freetomb mt (?p d))"
      using d(1) group_pos(2) [OF c h(1), of d] len
      by (subst get_freetombidx_loop_unfold) (auto split: option.splits)
    finally show ?thesis
      using Some by simp
  qed
qed

lemma rehash_probe_diverges:
  assumes c: "hash__cap_ok c" and h: "h < c"
    and nofree: "\<And>s. s < c \<Longrightarrow> nbase ! s \<noteq> 0"
  shows "hash__rehash_probe nbase c h = None"
proof (rule ccontr)
  assume "hash__rehash_probe nbase c h \<noteq> None"
  then obtain y where y: "hash__rehash_probe nbase c h = Some y"
    by auto
  define P where "P = (\<lambda>(nb' :: u8 list) (c' :: nat) (i' :: nat) (y' :: nat).
      \<not> (nb' = nbase \<and> c' = c \<and> i' < c))"
  have "P nbase c h y"
  proof (rule hash__rehash_probe.raw_induct [where P = P, OF _ y], goal_cases)
    case (1 f nb' c' i' y')
    show ?case
      unfolding P_def
    proof
      assume eq: "nb' = nbase \<and> c' = c \<and> i' < c"
      then have i': "i' < c" by auto
      from "1"(2) eq nofree [OF i'] have "f nbase c (sz_add i' 1 AND sz_sub c 1) = Some y'"
        by (simp add: hash_is_free_def del: One_nat_def)
      then have "f nbase c ((i' + 1) mod c) = Some y'"
        by (simp only: next_slot [OF c i'])
      from "1"(1) [OF this] cap_ok_ge [OF c]
      show False unfolding P_def by simp
    qed
  qed
  with h show False unfolding P_def by simp
qed

lemma rehash_probe_eval:
  assumes c: "hash__cap_ok c" and h: "h < c"
  shows "hash__rehash_probe nbase c h =
     map_option (\<lambda>t. (h + t) mod c) (find (\<lambda>t. nbase ! ((h + t) mod c) = 0) [0..<c])"
proof (cases "find (\<lambda>t. nbase ! ((h + t) mod c) = 0) [0..<c]")
  case None
  then have nz: "nbase ! ((h + t) mod c) \<noteq> 0" if "t < c" for t
    using that by (simp add: find_upt_None_iff)
  have "nbase ! s \<noteq> 0" if "s < c" for s
    using nz [of "hash__dist c h s"] dist_lt [of c h s] dist_reach [OF h that] that by simp
  from rehash_probe_diverges [OF c h this] None show ?thesis by simp
next
  case (Some t)
  then have t: "t < c" "nbase ! ((h + t) mod c) = 0" "\<And>d. d < t \<Longrightarrow> nbase ! ((h + d) mod c) \<noteq> 0"
    by (auto simp: find_upt_Some_iff)
  have "hash__rehash_probe nbase c h = hash__rehash_probe nbase c ((h + t) mod c)"
    using t(3) by (intro rehash_probe_skip [OF c h]) auto
  also have "\<dots> = Some ((h + t) mod c)"
    using t(2) by (subst hash__rehash_probe.simps) (simp add: hash_is_free_def)
  finally show ?thesis
    using Some by simp
qed

subsection \<open>The operations keep the invariant\<close>

lemma malloc_total:
  assumes "\<And>n. al n \<noteq> None"
  shows "\<exists>blk. hash__malloc al c vs = Some blk"
proof -
  have "hash__malloc al c vs \<noteq> None"
    using assms by (simp add: hash__malloc_def Let_def)
  then show ?thesis by blast
qed

lemma init_null:
  assumes "hash__malloc al 16 vsz = Some blk"
  shows "hash__init al vsz None = Some (hash__image blk 16 0 vsz)"
  using assms by (simp add: hash__init_def HASH__START_CAPACITY_def)

lemma init_null_fail:
  assumes "hash__malloc al 16 vsz = None"
  shows "hash__init al vsz None = None"
  using assms by (simp add: hash__init_def HASH__START_CAPACITY_def)

lemma init_inv: "hash_handle_inv seed (hash__init al vsz None)"
proof (cases "hash__malloc al 16 vsz")
  case None
  then show ?thesis
    by (simp add: init_null_fail hash_handle_inv_def)
next
  case (Some blk)
  then show ?thesis
    using image_inv(1) [OF cap_ok_16, of seed blk vsz]
    by (simp add: init_null hash_handle_inv_def)
qed

text \<open>Every return of \<open>hash_put\<close> on an image keeps the invariant, whatever the allocator does.\<close>

lemma put_inv:
  assumes inv: "hash_inv seed m" and cb: "info_capacity m < 2 ^ 63"
    and put: "hash_put seed al vsz (Some m) k v = Some (Ok (Some m'))"
  shows "hash_inv seed m'"
proof -
  let ?c = "info_capacity m"
  from put obtain m1 where m1: "hash__put_slot seed m k v = Some m1"
    by (auto simp: hash_put_def split: option.splits)
  from put_slot_ok [OF inv put_slot_Some_ok [OF inv m1], of v] m1
  have inv1: "hash_inv seed m1" and c1: "info_capacity m1 = ?c"
    by auto
  from inv have c: "hash__cap_ok ?c"
    by (auto simp: hash_inv_def hash_struct_def hash_wf_def)
  have dc: "sz_mul (info_capacity m1) 2 = 2 * ?c"
    using double_cap [OF cb] c1 by simp
  show ?thesis
  proof (cases "sz_mul (info_capacity m1 div 4) 3 \<le> info_size m1")
    case False
    with put m1 have "m' = m1"
      by (simp add: hash_put_def)
    with inv1 show ?thesis by simp
  next
    case True
    with put m1 dc have rs: "hash__resize seed al m1 (2 * ?c) = Some m'"
      by (auto simp: hash_put_def)
    show ?thesis
    proof (cases "hash__malloc al (2 * ?c) (info_val_size m1)")
      case None
      with rs inv1 show ?thesis
        by (simp add: resize_fail)
    next
      case (Some blk)
      from resize_ok [OF inv1 cap_ok_double [OF c cb] _ Some] c1 rs show ?thesis
        by auto
    qed
  qed
qed

lemma put_null:
  "hash_put seed al vsz None k v =
     (case hash__init al vsz None of
        None \<Rightarrow> Some Fault
      | Some m0 \<Rightarrow> hash_put seed al vsz (Some m0) k v)"
  by (simp add: hash_put_def split: option.splits)

lemma del_inv:
  assumes inv: "hash_inv seed m"
    and del: "hash_del seed (Some m) k fv = Some (Ok (r, Some m', fr))"
  shows "hash_inv seed m'"
proof (cases "hash_slot_of m k")
  case None
  with del_miss [OF inv None] del inv show ?thesis
    by (auto split: if_splits)
next
  case (Some s)
  from del_hit(1) [OF inv Some, of fv] del_hit(2) [OF inv Some] del show ?thesis
    by auto
qed

lemma reserve_noop:
  "n \<le> info_capacity m \<Longrightarrow> hash_reserve seed al vsz (Some m) n = Some (Ok (Some m))"
  by (simp add: hash_reserve_def Let_def hash_capacity_def)

lemma reserve_unfold:
  "info_capacity m < n \<Longrightarrow>
   hash_reserve seed al vsz (Some m) n =
     (case hash_reserve_true_cap 1 n of
        None \<Rightarrow> None
      | Some tc \<Rightarrow> map_option (\<lambda>m'. Ok (Some m')) (hash__resize seed al m tc))"
  by (simp add: hash_reserve_def Let_def hash_capacity_def split: option.splits)

lemma reserve_null:
  "hash_reserve seed al vsz None n =
     (case hash__init al vsz None of
        None \<Rightarrow> (if 0 < n then (case hash_reserve_true_cap 1 n of None \<Rightarrow> None | Some tc \<Rightarrow> Some Fault)
                else Some (Ok None))
      | Some m0 \<Rightarrow> hash_reserve seed al vsz (Some m0) n)"
  by (simp add: hash_reserve_def Let_def hash_capacity_def split: option.splits)

lemma reserve_cap_ok:
  assumes c: "hash__cap_ok c" and n: "c < n" "n \<le> 2 ^ e" and e: "e \<le> 63"
  shows "hash__cap_ok (2 ^ e)"
proof -
  have "(2::nat) ^ 4 < 2 ^ e"
    using cap_ok_ge [OF c] n by simp
  then have "4 < e"
    by (simp only: power_strict_increasing_iff rel_simps)
  with e show ?thesis
    unfolding hash__cap_ok_def by (intro exI [of _ e]) simp
qed

lemma reserve_grow:
  assumes inv: "hash_inv seed m" and n: "info_capacity m < n" "n \<le> 2 ^ 63"
    and al: "\<And>b. al b \<noteq> None"
  shows "\<exists>e m' blk. e \<le> 63 \<and> n \<le> 2 ^ e \<and> (\<forall>e'<e. 2 ^ e' < n) \<and>
     hash__malloc al (2 ^ e) (info_val_size m) = Some blk \<and>
     hash__rehash seed m (hash__image blk (2 ^ e) (info_size m) (info_val_size m)) = Some m' \<and>
     hash_reserve seed al vsz (Some m) n = Some (Ok (Some m')) \<and>
     hash_inv seed m' \<and> hash_no_tomb m' \<and> hash_has_free m' \<and>
     info_capacity m' = 2 ^ e \<and> info_size m' = info_size m \<and>
     info_val_size m' = info_val_size m \<and> hash_lookup m' = hash_lookup m"
proof -
  let ?c = "info_capacity m"
  from inv have c: "hash__cap_ok ?c"
    by (auto simp: hash_inv_def hash_struct_def hash_wf_def)
  from reserve_true_cap_result [OF n(2)] obtain e where e: "e \<le> 63"
    "hash_reserve_true_cap 1 n = Some (2 ^ e)" "n \<le> 2 ^ e" "\<forall>e'<e. 2 ^ e' < n"
    by blast
  have ce: "hash__cap_ok (2 ^ e)"
    by (rule reserve_cap_ok [OF c n(1) e(3) e(1)])
  from malloc_total [of al "2 ^ e" "info_val_size m"] al obtain blk
    where blk: "hash__malloc al (2 ^ e) (info_val_size m) = Some blk"
    by blast
  have le: "?c \<le> 2 ^ e" and room: "info_size m < 2 ^ e"
    using n(1) e(3) inv_size_bound(1) [OF inv] by simp_all
  from resize_ok [OF inv ce le blk] room
  obtain m' where m': "hash__resize seed al m (2 ^ e) = Some m'" "hash_inv seed m'"
    "hash_no_tomb m'" "info_capacity m' = 2 ^ e" "info_size m' = info_size m"
    "info_val_size m' = info_val_size m" "hash_lookup m' = hash_lookup m" "hash_has_free m'"
    by auto
  have rh: "hash__rehash seed m (hash__image blk (2 ^ e) (info_size m) (info_val_size m)) = Some m'"
    using m'(1) blk by (simp add: hash__resize_def Let_def)
  have "hash_reserve seed al vsz (Some m) n = Some (Ok (Some m'))"
    by (simp add: reserve_unfold [OF n(1)] e(2) m'(1) del: One_nat_def)
  with e blk rh m' show ?thesis by blast
qed

lemma reserve_inv:
  assumes inv: "hash_inv seed m" and n: "n \<le> 2 ^ 63"
    and res: "hash_reserve seed al vsz (Some m) n = Some (Ok (Some m'))"
  shows "hash_inv seed m'"
proof (cases "n \<le> info_capacity m")
  case True
  with res inv show ?thesis by (simp add: reserve_noop)
next
  case False
  then have lt: "info_capacity m < n" by simp
  let ?c = "info_capacity m"
  from inv have c: "hash__cap_ok ?c"
    by (auto simp: hash_inv_def hash_struct_def hash_wf_def)
  from reserve_true_cap_result [OF n] obtain e where e: "e \<le> 63"
    "hash_reserve_true_cap 1 n = Some (2 ^ e)" "n \<le> 2 ^ e"
    by blast
  from res have rs: "hash__resize seed al m (2 ^ e) = Some m'"
    by (auto simp: reserve_unfold [OF lt] e(2) simp del: One_nat_def)
  have ce: "hash__cap_ok (2 ^ e)"
    by (rule reserve_cap_ok [OF c lt e(3) e(1)])
  show ?thesis
  proof (cases "hash__malloc al (2 ^ e) (info_val_size m)")
    case None
    with rs inv show ?thesis by (simp add: resize_fail)
  next
    case (Some blk)
    have le: "?c \<le> 2 ^ e" using lt e(3) by simp
    from resize_ok [OF inv ce le Some] rs show ?thesis by auto
  qed
qed

lemma reserve_diverges:
  assumes "2 ^ 63 < n" and "info_capacity m < n"
  shows "hash_reserve seed al vsz (Some m) n = None"
  by (simp add: reserve_unfold [OF assms(2)] reserve_true_cap_diverges [OF assms(1)]
      del: One_nat_def)

lemma resize_inv:
  assumes inv: "hash_inv seed m" and nc: "hash__cap_ok nc" "info_capacity m \<le> nc"
    and rs: "hash__resize seed al m nc = Some m'"
  shows "hash_inv seed m'"
proof (cases "hash__malloc al nc (info_val_size m)")
  case None
  with rs inv show ?thesis by (simp add: resize_fail)
next
  case (Some blk)
  from resize_ok [OF inv nc Some] rs show ?thesis by auto
qed

lemma inv_probe_path:
  assumes "hash_inv seed m" and "i < info_capacity m" and "hash_is_full (meta m ! i)"
  shows "hash_on_probe_path seed m i"
  using assms by (auto simp: hash_inv_def hash_struct_def hash_slots_ok_def)

lemma no_tomb_bytes:
  assumes "hash_no_tomb m" and "i < info_capacity m"
  shows "meta m ! i \<noteq> HASH__TOMB"
proof
  assume t: "meta m ! i = HASH__TOMB"
  with assms tomb_not_full have "hash_is_free (meta m ! i)"
    by (auto simp: hash_no_tomb_def)
  with t tomb_not_free show False by simp
qed

subsection \<open>Evaluation on concrete tables\<close>

lemma malloc_zero: "hash__malloc alloc_zero c vs = Some (\<lambda>i. 0, \<lambda>i. 0)"
  by (simp add: hash__malloc_def alloc_zero_def)

lemma cap_ok_32: "hash__cap_ok 32"
  unfolding hash__cap_ok_def by (rule exI [of _ 5]) simp

lemma upt_16: "[0..<16] = [0, 1, 2, 3, 4, 5, 6, 7, 8, 9, 10, 11, 12, 13, 14, 15]"
  by (simp add: upt_rec)

lemma upt_32: "[0..<32] = [0, 1, 2, 3, 4, 5, 6, 7, 8, 9, 10, 11, 12, 13, 14, 15,
    16, 17, 18, 19, 20, 21, 22, 23, 24, 25, 26, 27, 28, 29, 30, 31]"
  by (simp add: upt_rec)

lemma upt_small: "[0..<1] = [0]" "[0..<2] = [0, 1]"
  by (simp_all add: upt_rec)

lemma image_16: "hash__image (\<lambda>i. 0, \<lambda>i. 0) 16 sz vs =
    \<lparr>meta = replicate 16 0, keys = replicate 16 0, info_size = sz, info_capacity = 16,
     info_val_size = vs, vals = replicate 16 0\<rparr>"
  by (simp add: hash__image_def HASH__FREE_def map_replicate_const del: replicate.simps)

lemma image_32: "hash__image (\<lambda>i. 0, \<lambda>i. 0) 32 sz vs =
    \<lparr>meta = replicate 32 0, keys = replicate 32 0, info_size = sz, info_capacity = 32,
     info_val_size = vs, vals = replicate 32 0\<rparr>"
  by (simp add: hash__image_def HASH__FREE_def map_replicate_const del: replicate.simps)

lemma replicate_16: "replicate 16 x = [x, x, x, x, x, x, x, x, x, x, x, x, x, x, x, x]"
  by (simp add: numeral_eq_Suc)

lemma replicate_32: "replicate 32 x = [x, x, x, x, x, x, x, x, x, x, x, x, x, x, x, x,
    x, x, x, x, x, x, x, x, x, x, x, x, x, x, x, x]"
  by (simp add: numeral_eq_Suc)

lemma group_free_eval:
  "hash__group_free mt i = list_ex (\<lambda>j. mt ! (i + j) = 0) [0..<16]"
  by (auto simp: hash__group_free_def list_ex_iff)

lemma home_16: "hash__home seed 16 k = 0"
  by (simp add: hash__home_def)

lemma home_32: "hash__home seed 32 k = 16 * unat (hash__hash57 (hash__hash seed k) AND 1)"
proof -
  have "unat (hash__hash57 (hash__hash seed k) AND 1) =
      unat (hash__hash57 (hash__hash seed k)) mod 2"
    by (simp add: and_one_eq unat_mod_distrib)
  then show ?thesis
    by (simp add: hash__home_def)
qed

lemma put_slot_tag:
  "hash__put_slot seed mp k val =
     (case hash__get_idx seed mp k of
        None \<Rightarrow> None
      | Some (Some idx) \<Rightarrow> Some (mp\<lparr>vals := (vals mp)[idx := val]\<rparr>)
      | Some None \<Rightarrow>
          (case hash__get_freetombidx seed mp k of
             None \<Rightarrow> None
           | Some idx \<Rightarrow>
               Some (mp\<lparr>meta := (meta mp)[idx := hash__tag seed k],
                        keys := (keys mp)[idx := k],
                        vals := (vals mp)[idx := val],
                        info_size := sz_add (info_size mp) 1\<rparr>)))"
  by (simp add: hash__put_slot_def Let_def hash__tag_def del: One_nat_def split: option.splits)

lemma rehash_slot_home:
  assumes "hash__cap_ok (info_capacity nm)"
  shows "hash__rehash_slot seed m i nm =
     (if hash_is_full (meta m ! i) then
        (case hash__rehash_probe (meta nm) (info_capacity nm)
                (hash__home seed (info_capacity nm) (keys m ! i)) of
           None \<Rightarrow> None
         | Some idx \<Rightarrow>
             Some (nm\<lparr>meta := (meta nm)[idx := meta m ! i],
                      keys := (keys nm)[idx := keys m ! i],
                      vals := (vals nm)[idx := vals m ! i]\<rparr>))
      else Some nm)"
  by (simp add: hash__rehash_slot_def Let_def start_index [OF assms] del: One_nat_def
      split: option.splits)

lemmas hash_eval =
  hash_put_def hash__init_def malloc_zero image_16 image_32 put_slot_tag
  HASH__START_CAPACITY_def HASH__FREE_def HASH__TOMB_def
  sz_add_def sz_sub_def sz_mul_def
  get_idx_start get_freetombidx_start get_idx_loop_eval get_freetombidx_loop_eval rehash_probe_eval
  home_16 home_32
  hash__group_match_def group_free_eval hash__group_freetomb_def
  hash_is_full_def hash_is_free_def
  hash__resize_def hash__rehash_def rehash_slot_home
  hash_get_def hash_del_def hash_reserve_def hash_size_def hash_capacity_def
  cap_ok_16 cap_ok_32 upt_16 upt_32 upt_small replicate_16 replicate_32 Let_def

subsection \<open>Runs keep the invariant\<close>

lemma op_bound_mono: "c \<le> hash_op_bound x c"
  by (cases x) simp_all

lemma run_bound_mono: "c \<le> foldl (\<lambda>c x. hash_op_bound x c) c xs"
proof (induction xs arbitrary: c)
  case Nil
  show ?case by simp
next
  case (Cons x xs)
  have "c \<le> hash_op_bound x c" by (rule op_bound_mono)
  also have "\<dots> \<le> foldl (\<lambda>c x. hash_op_bound x c) (hash_op_bound x c) xs"
    by (rule Cons.IH)
  finally show ?case by simp
qed

lemma put_capacity:
  assumes inv: "hash_inv seed m" and cb: "info_capacity m < 2 ^ 63"
    and put: "hash_put seed al vsz (Some m) k v = Some (Ok h')"
  shows "\<exists>m'. h' = Some m' \<and> hash_inv seed m' \<and> info_capacity m' \<le> 2 * info_capacity m"
proof -
  let ?c = "info_capacity m"
  from put obtain m1 where m1: "hash__put_slot seed m k v = Some m1"
    by (cases "hash__put_slot seed m k v") (simp_all add: hash_put_def)
  from put have "\<exists>m'. h' = Some m'"
    by (auto simp: hash_put_def m1 split: if_splits)
  then obtain m' where h': "h' = Some m'" ..
  from put_slot_ok [OF inv put_slot_Some_ok [OF inv m1], of v] m1
  have inv1: "hash_inv seed m1" and c1: "info_capacity m1 = ?c"
    by auto
  from inv have c: "hash__cap_ok ?c"
    by (auto simp: hash_inv_def hash_struct_def hash_wf_def)
  have dc: "sz_mul (info_capacity m1) 2 = 2 * ?c"
    using double_cap [OF cb] c1 by simp
  have inv': "hash_inv seed m'"
    using put_inv [OF inv cb] put h' by simp
  have "info_capacity m' \<le> 2 * ?c"
  proof (cases "sz_mul (info_capacity m1 div 4) 3 \<le> info_size m1")
    case False
    with put m1 h' have "m' = m1"
      by (simp add: hash_put_def)
    with c1 show ?thesis by simp
  next
    case True
    with put m1 dc h' have rs: "hash__resize seed al m1 (2 * ?c) = Some m'"
      by (auto simp: hash_put_def)
    show ?thesis
    proof (cases "hash__malloc al (2 * ?c) (info_val_size m1)")
      case None
      with rs c1 show ?thesis
        by (simp add: resize_fail)
    next
      case (Some blk)
      from resize_ok [OF inv1 cap_ok_double [OF c cb] _ Some] c1 rs show ?thesis
        by auto
    qed
  qed
  with h' inv' show ?thesis by simp
qed

lemma reserve_capacity:
  assumes inv: "hash_inv seed m" and n: "n \<le> 2 ^ 63"
    and res: "hash_reserve seed al vsz (Some m) n = Some (Ok h')"
  shows "\<exists>m'. h' = Some m' \<and> hash_inv seed m' \<and> info_capacity m' \<le> max (info_capacity m) (2 * n)"
proof (cases "n \<le> info_capacity m")
  case True
  with res inv show ?thesis by (auto simp: reserve_noop)
next
  case False
  then have lt: "info_capacity m < n" by simp
  let ?c = "info_capacity m"
  from inv have c: "hash__cap_ok ?c"
    by (auto simp: hash_inv_def hash_struct_def hash_wf_def)
  from reserve_true_cap_result [OF n] obtain e where e: "e \<le> 63"
    "hash_reserve_true_cap 1 n = Some (2 ^ e)" "n \<le> 2 ^ e" "\<forall>e'<e. 2 ^ e' < n"
    by blast
  from res obtain m' where h': "h' = Some m'" and rs: "hash__resize seed al m (2 ^ e) = Some m'"
    by (auto simp: reserve_unfold [OF lt] e(2) simp del: One_nat_def)
  have inv': "hash_inv seed m'"
    using reserve_inv [OF inv n] res h' by simp
  have ce: "hash__cap_ok (2 ^ e)"
    by (rule reserve_cap_ok [OF c lt e(3) e(1)])
  have "0 < e"
    using cap_ok_ge [OF ce] by (cases e) simp_all
  then have "(2::nat) ^ e = 2 * 2 ^ (e - 1)"
    by (cases e) simp_all
  moreover have "2 ^ (e - 1) < n"
    using e(4) \<open>0 < e\<close> by simp
  ultimately have small: "2 ^ e \<le> 2 * n" by simp
  have "info_capacity m' \<le> max ?c (2 * n)"
  proof (cases "hash__malloc al (2 ^ e) (info_val_size m)")
    case None
    with rs show ?thesis by (simp add: resize_fail)
  next
    case (Some blk)
    have le: "?c \<le> 2 ^ e" using lt e(3) by simp
    from resize_ok [OF inv ce le Some] rs small show ?thesis by auto
  qed
  with h' inv' show ?thesis by simp
qed

lemma apply_op_inv:
  assumes inv: "hash_handle_inv seed h" and c: "max 16 (hash_capacity h) \<le> c"
    and b: "hash_op_bound x c \<le> 2 ^ 63"
    and ap: "hash_apply_op seed al vsz h x = Some (Ok h')"
  shows "hash_handle_inv seed h' \<and> max 16 (hash_capacity h') \<le> hash_op_bound x c"
proof (cases x)
  case (Put k v)
  with b have c62: "2 * c \<le> 2 ^ 63" by simp
  from ap Put have put: "hash_put seed al vsz h k v = Some (Ok h')" by simp
  obtain m where m: "hash_put seed al vsz (Some m) k v = Some (Ok h')" "hash_inv seed m"
    "max 16 (info_capacity m) \<le> c"
  proof (cases h)
    case None
    with put obtain m0 where m0: "hash__init al vsz None = Some m0"
      "hash_put seed al vsz (Some m0) k v = Some (Ok h')"
      by (auto simp: put_null split: option.splits)
    then obtain blk where "m0 = hash__image blk 16 0 vsz"
      by (auto simp: hash__init_def HASH__START_CAPACITY_def split: option.splits)
    with image_inv(1) [OF cap_ok_16, of seed blk vsz] c
    have "hash_inv seed m0" "max 16 (info_capacity m0) \<le> c"
      by (simp_all add: hash__image_def)
    with m0(2) that show ?thesis by blast
  next
    case (Some m)
    with put inv c that show ?thesis
      by (simp add: hash_handle_inv_def hash_capacity_def)
  qed
  from m(3) c62 have cb: "info_capacity m < 2 ^ 63" by simp
  from put_capacity [OF m(2) cb m(1)] m(3) Put show ?thesis
    by (auto simp: hash_handle_inv_def hash_capacity_def)
next
  case (Del k fv)
  from ap Del obtain r fr where del: "hash_del seed h k fv = Some (Ok (r, h', fr))"
    by (auto split: option.splits res.splits)
  then obtain m where h: "h = Some m"
    by (cases h) (auto simp: hash_del_def)
  with inv have invm: "hash_inv seed m"
    by (simp add: hash_handle_inv_def)
  from del h obtain m' where h': "h' = Some m'" "info_capacity m' = info_capacity m"
    by (auto simp: hash_del_def split: option.splits)
  with del_inv [OF invm] del h have "hash_inv seed m'" by simp
  with h' h c Del show ?thesis
    by (simp add: hash_handle_inv_def hash_capacity_def)
next
  case (Reserve n)
  with b have n62: "2 * n \<le> 2 ^ 63" and c63: "c \<le> 2 ^ 63" by simp_all
  then have n: "n \<le> 2 ^ 63" by simp
  from ap Reserve have res: "hash_reserve seed al vsz h n = Some (Ok h')" by simp
  show ?thesis
  proof (cases h)
    case (Some m)
    with inv have invm: "hash_inv seed m" by (simp add: hash_handle_inv_def)
    from res Some have "hash_reserve seed al vsz (Some m) n = Some (Ok h')" by simp
    from reserve_capacity [OF invm n this] Some c Reserve show ?thesis
      by (auto simp: hash_handle_inv_def hash_capacity_def)
  next
    case None
    show ?thesis
    proof (cases "hash__init al vsz None")
      case inone: None
      with res None have "h' = None"
        by (auto simp: reserve_null split: if_splits option.splits)
      with c None Reserve show ?thesis
        by (simp add: hash_handle_inv_def hash_capacity_def)
    next
      case (Some m0)
      then obtain blk where "m0 = hash__image blk 16 0 vsz"
        by (auto simp: hash__init_def HASH__START_CAPACITY_def split: option.splits)
      with image_inv(1) [OF cap_ok_16, of seed blk vsz]
      have i0: "hash_inv seed m0" and c0: "info_capacity m0 = 16"
        by (simp_all add: hash__image_def)
      from res None Some have "hash_reserve seed al vsz (Some m0) n = Some (Ok h')"
        by (simp add: reserve_null)
      from reserve_capacity [OF i0 n this] c0 c None Reserve show ?thesis
        by (auto simp: hash_handle_inv_def hash_capacity_def)
    qed
  qed
qed

text \<open>
  A run keeps the invariant while the capacities it can reach stay within \<^verbatim>\<open>size_t\<close>:
  \<open>hash_op_bound\<close> bounds the capacity after an operation by the bound before it.
\<close>

lemma run_inv:
  assumes "hash_handle_inv seed h" and "max 16 (hash_capacity h) \<le> c"
    and "foldl (\<lambda>c x. hash_op_bound x c) c xs \<le> 2 ^ 63"
    and "hash_run seed al vsz h xs = Some (Ok h')"
  shows "hash_handle_inv seed h'"
  using assms
proof (induction xs arbitrary: h c)
  case Nil
  then show ?case by simp
next
  case (Cons x xs)
  from Cons.prems(4) obtain h1 where h1: "hash_apply_op seed al vsz h x = Some (Ok h1)"
    "hash_run seed al vsz h1 xs = Some (Ok h')"
    by (auto split: option.splits res.splits)
  have "hash_op_bound x c \<le> foldl (\<lambda>c x. hash_op_bound x c) (hash_op_bound x c) xs"
    by (rule run_bound_mono)
  with Cons.prems(3) have b: "hash_op_bound x c \<le> 2 ^ 63" by simp
  from apply_op_inv [OF Cons.prems(1,2) b h1(1)]
  have "hash_handle_inv seed h1" "max 16 (hash_capacity h1) \<le> hash_op_bound x c"
    by simp_all
  from Cons.IH [OF this _ h1(2)] Cons.prems(3) show ?case by simp
qed

lemma run_append:
  "hash_run seed al vsz h (xs @ ys) =
     (case hash_run seed al vsz h xs of
        None \<Rightarrow> None
      | Some Fault \<Rightarrow> Some Fault
      | Some (Ok h') \<Rightarrow> hash_run seed al vsz h' ys)"
  by (induction xs arbitrary: h) (auto split: option.splits res.splits)

subsection \<open>The runs that build the concrete tables\<close>

lemma replicate_num: "replicate (numeral n) x = x # replicate (pred_numeral n) x"
  by (simp add: numeral_eq_Suc)

lemma upt_11: "[0..<11] = [0, 1, 2, 3, 4, 5, 6, 7, 8, 9, 10]"
  by (simp add: upt_rec)

lemma upt_12: "[0..<12] = [0, 1, 2, 3, 4, 5, 6, 7, 8, 9, 10, 11]"
  by (simp add: upt_rec)

lemmas fixture_defs =
  keys_low_def keys_high_def put_all_def del_all_def replicate_num upt_11 upt_12

lemma key_facts_1:
  "hash__tag hash__seed 0 = 151 \<and> hash__hash57 (hash__hash hash__seed 0) AND 1 = 0 \<and>
   hash__tag hash__seed 3 = 223 \<and> hash__hash57 (hash__hash hash__seed 3) AND 1 = 0 \<and>
   hash__tag hash__seed 4 = 188 \<and> hash__hash57 (hash__hash hash__seed 4) AND 1 = 0 \<and>
   hash__tag hash__seed 7 = 229 \<and> hash__hash57 (hash__hash hash__seed 7) AND 1 = 0 \<and>
   hash__tag hash__seed 10 = 249 \<and> hash__hash57 (hash__hash hash__seed 10) AND 1 = 0 \<and>
   hash__tag hash__seed 12 = 140 \<and> hash__hash57 (hash__hash hash__seed 12) AND 1 = 0 \<and>
   hash__tag hash__seed 16 = 189 \<and> hash__hash57 (hash__hash hash__seed 16) AND 1 = 0 \<and>
   hash__tag hash__seed 21 = 239 \<and> hash__hash57 (hash__hash hash__seed 21) AND 1 = 0 \<and>
   hash__tag hash__seed 22 = 206 \<and> hash__hash57 (hash__hash hash__seed 22) AND 1 = 0"
  by code_simp

lemma key_facts_2:
  "hash__tag hash__seed 26 = 206 \<and> hash__hash57 (hash__hash hash__seed 26) AND 1 = 0 \<and>
   hash__tag hash__seed 27 = 154 \<and> hash__hash57 (hash__hash hash__seed 27) AND 1 = 0 \<and>
   hash__tag hash__seed 29 = 151 \<and> hash__hash57 (hash__hash hash__seed 29) AND 1 = 0 \<and>
   hash__tag hash__seed 30 = 251 \<and> hash__hash57 (hash__hash hash__seed 30) AND 1 = 0 \<and>
   hash__tag hash__seed 31 = 218 \<and> hash__hash57 (hash__hash hash__seed 31) AND 1 = 0 \<and>
   hash__tag hash__seed 33 = 140 \<and> hash__hash57 (hash__hash hash__seed 33) AND 1 = 0 \<and>
   hash__tag hash__seed 34 = 183 \<and> hash__hash57 (hash__hash hash__seed 34) AND 1 = 0 \<and>
   hash__tag hash__seed 1 = 190 \<and> hash__hash57 (hash__hash hash__seed 1) AND 1 = 1 \<and>
   hash__tag hash__seed 2 = 194 \<and> hash__hash57 (hash__hash hash__seed 2) AND 1 = 1"
  by code_simp

lemma key_facts_3:
  "hash__tag hash__seed 5 = 173 \<and> hash__hash57 (hash__hash hash__seed 5) AND 1 = 1 \<and>
   hash__tag hash__seed 6 = 155 \<and> hash__hash57 (hash__hash hash__seed 6) AND 1 = 1 \<and>
   hash__tag hash__seed 8 = 231 \<and> hash__hash57 (hash__hash hash__seed 8) AND 1 = 1 \<and>
   hash__tag hash__seed 9 = 132 \<and> hash__hash57 (hash__hash hash__seed 9) AND 1 = 1 \<and>
   hash__tag hash__seed 11 = 162 \<and> hash__hash57 (hash__hash hash__seed 11) AND 1 = 1 \<and>
   hash__tag hash__seed 13 = 190 \<and> hash__hash57 (hash__hash hash__seed 13) AND 1 = 1 \<and>
   hash__tag hash__seed 14 = 240 \<and> hash__hash57 (hash__hash hash__seed 14) AND 1 = 1 \<and>
   hash__tag hash__seed 15 = 143 \<and> hash__hash57 (hash__hash hash__seed 15) AND 1 = 1 \<and>
   hash__tag hash__seed 17 = 148 \<and> hash__hash57 (hash__hash hash__seed 17) AND 1 = 1"
  by code_simp

lemma key_facts_4:
  "hash__tag hash__seed 18 = 233 \<and> hash__hash57 (hash__hash hash__seed 18) AND 1 = 1 \<and>
   hash__tag hash__seed 19 = 236 \<and> hash__hash57 (hash__hash hash__seed 19) AND 1 = 1 \<and>
   hash__tag hash__seed 20 = 209 \<and> hash__hash57 (hash__hash hash__seed 20) AND 1 = 1 \<and>
   hash__tag hash__seed 23 = 215 \<and> hash__hash57 (hash__hash hash__seed 23) AND 1 = 1 \<and>
   hash__tag hash__seed 24 = 189 \<and> hash__hash57 (hash__hash hash__seed 24) AND 1 = 1 \<and>
   hash__tag hash__seed 100 = 201 \<and> hash__hash57 (hash__hash hash__seed 100) AND 1 = 0"
  by code_simp

lemmas key_facts = key_facts_1 key_facts_2 key_facts_3 key_facts_4

lemma run_one:
  "hash_run hash__seed alloc_zero 8 None [Put 1 65] = Some (Ok (Some tbl_one))"
  using key_facts by (simp add: hash_eval fixture_defs tbl_one_def)

lemma run_tomb:
  "hash_run hash__seed alloc_zero 8 (Some tbl_one) [Put 2 66, Del 1 False] = Some (Ok (Some tbl_tomb))"
  using key_facts by (simp add: hash_eval fixture_defs tbl_tomb_def tbl_one_def)

lemma run_eleven:
  "hash_run hash__seed alloc_zero 8 None (put_all [0..<11]) = Some (Ok (Some tbl_eleven))"
  using key_facts by (simp add: hash_eval fixture_defs tbl_eleven_def)

lemma run_twelfth:
  "hash_run hash__seed alloc_zero 8 (Some tbl_eleven) [Put 11 110] = Some (Ok (Some tbl_twelve))"
  using key_facts by (simp add: hash_eval fixture_defs tbl_twelve_def tbl_eleven_def)

lemma run_low:
  "hash_run hash__seed alloc_zero 8 None (put_all keys_low) = Some (Ok (Some tbl_low))"
  using key_facts by (simp add: hash_eval fixture_defs tbl_low_def)

lemma run_cleared:
  "hash_run hash__seed alloc_zero 8 (Some tbl_low) (del_all keys_low) = Some (Ok (Some tbl_cleared))"
  using key_facts by (simp add: hash_eval fixture_defs tbl_cleared_def tbl_low_def)

lemma run_high:
  "hash_run hash__seed alloc_zero 8 (Some tbl_cleared) (put_all keys_high) = Some (Ok (Some tbl_saturated))"
  using key_facts by (simp add: hash_eval fixture_defs tbl_saturated_def tbl_cleared_def)

lemma has_free_eval:
  "hash_has_free m = list_ex (\<lambda>i. meta m ! i = 0) [0..<info_capacity m]"
  by (auto simp: hash_has_free_def hash_is_free_def list_ex_iff)

lemma slot_of_eval:
  "hash_slot_of m k =
     find (\<lambda>i. meta m ! i AND 0x80 = 0x80 \<and> keys m ! i = k) [0..<info_capacity m]"
  by (simp add: hash_slot_of_def hash_is_full_def)

lemma put_all_append: "put_all (xs @ ys) = put_all xs @ put_all ys"
  by (simp add: put_all_def)

lemma handle_inv_null: "hash_handle_inv seed None"
  by (simp add: hash_handle_inv_def)

lemma inv_empty: "hash_inv hash__seed tbl_empty"
  using image_inv(1) [OF cap_ok_16, of hash__seed "(\<lambda>i. 0, \<lambda>i. 0)" 8]
  by (simp add: image_16 tbl_empty_def)

lemma inv_one: "hash_inv hash__seed tbl_one"
  using run_inv [OF handle_inv_null _ _ run_one, of 16]
  by (simp add: hash_handle_inv_def hash_capacity_def)

lemma inv_tomb: "hash_inv hash__seed tbl_tomb"
  using run_inv [of hash__seed "Some tbl_one" 16, OF _ _ _ run_tomb] inv_one
  by (simp add: hash_handle_inv_def hash_capacity_def tbl_one_def)

lemma inv_eleven: "hash_inv hash__seed tbl_eleven"
  using run_inv [OF handle_inv_null _ _ run_eleven, of 16]
  by (simp add: hash_handle_inv_def hash_capacity_def fixture_defs)

lemma run_twelve:
  "hash_run hash__seed alloc_zero 8 None (put_all [0..<12]) = Some (Ok (Some tbl_twelve))"
proof -
  have "[0..<12] = [0..<11] @ [11]"
    by (simp add: upt_11 upt_12)
  then have "put_all [0..<12] = put_all [0..<11] @ [Put 11 110]"
    by (simp add: put_all_def)
  then show ?thesis
    by (simp only: run_append run_eleven run_twelfth option.case res.case)
qed

lemma run_saturated:
  "hash_run hash__seed alloc_zero 8 None (put_all keys_low @ del_all keys_low @ put_all keys_high) =
     Some (Ok (Some tbl_saturated))"
  by (simp only: run_append run_low run_cleared run_high option.case res.case)

lemma saturated_no_free: "\<not> hash_has_free tbl_saturated"
  by (simp add: has_free_eval tbl_saturated_def upt_32 replicate_num)

lemma saturated_probe:
  "hash__get_idx hash__seed tbl_saturated 100 = None"
  "hash__get_idx hash__seed tbl_saturated 0 = None"
  "hash__get_idx hash__seed tbl_saturated 1 = Some (Some 16)"
  using key_facts by (simp_all add: hash_eval fixture_defs tbl_saturated_def)

lemma saturated_del_probe:
  "hash__get_idx hash__seed tbl_saturated_del 1 = None"
  using key_facts by (simp add: hash_eval fixture_defs tbl_saturated_del_def)

lemma handle_inv_probe:
  assumes "hash_handle_inv seed h"
  shows "hash_probe_inv seed h"
  using assms inv_probe_path
  by (auto simp: hash_handle_inv_def hash_probe_inv_def split: option.splits)

lemma put_handle_inv:
  assumes inv: "hash_handle_inv seed h" and cb: "hash_capacity h < 2 ^ 63"
    and put: "hash_put seed al vsz h k v = Some (Ok h')"
  shows "hash_handle_inv seed h'"
proof (cases h)
  case (Some m)
  with inv cb put have "hash_inv seed m" "info_capacity m < 2 ^ 63"
    "hash_put seed al vsz (Some m) k v = Some (Ok h')"
    by (simp_all add: hash_handle_inv_def hash_capacity_def)
  from put_capacity [OF this] show ?thesis
    by (auto simp: hash_handle_inv_def)
next
  case None
  with put obtain m0 where m0: "hash__init al vsz None = Some m0"
    "hash_put seed al vsz (Some m0) k v = Some (Ok h')"
    by (auto simp: put_null split: option.splits)
  then obtain blk where "m0 = hash__image blk 16 0 vsz"
    by (auto simp: hash__init_def HASH__START_CAPACITY_def split: option.splits)
  with image_inv(1) [OF cap_ok_16, of seed blk vsz]
  have "hash_inv seed m0" "info_capacity m0 < 2 ^ 63"
    by (simp_all add: hash__image_def)
  from put_capacity [OF this m0(2)] show ?thesis
    by (auto simp: hash_handle_inv_def)
qed

lemma del_handle_inv:
  assumes inv: "hash_handle_inv seed h"
    and del: "hash_del seed h k fv = Some (Ok (r, h', fr))"
  shows "hash_handle_inv seed h'"
proof -
  from del obtain m where h: "h = Some m"
    by (cases h) (auto simp: hash_del_def)
  with inv have invm: "hash_inv seed m"
    by (simp add: hash_handle_inv_def)
  from del h have "\<exists>m'. h' = Some m'"
    by (auto simp: hash_del_def split: option.splits)
  then obtain m' where h': "h' = Some m'" ..
  with del_inv [OF invm] del h show ?thesis
    by (simp add: hash_handle_inv_def)
qed

lemma reserve_handle_inv:
  assumes inv: "hash_handle_inv seed h" and n: "n \<le> 2 ^ 63"
    and res: "hash_reserve seed al vsz h n = Some (Ok h')"
  shows "hash_handle_inv seed h'"
proof (cases h)
  case (Some m)
  with inv res have "hash_inv seed m" "hash_reserve seed al vsz (Some m) n = Some (Ok h')"
    by (simp_all add: hash_handle_inv_def)
  from reserve_capacity [OF this(1) n this(2)] show ?thesis
    by (auto simp: hash_handle_inv_def)
next
  case None
  show ?thesis
  proof (cases "hash__init al vsz None")
    case inone: None
    with res None have "h' = None"
      by (auto simp: reserve_null split: if_splits option.splits)
    then show ?thesis
      by (simp add: hash_handle_inv_def)
  next
    case (Some m0)
    have "hash_inv seed m0"
      using init_inv [of seed al vsz] Some by (simp add: hash_handle_inv_def)
    moreover from res None Some have "hash_reserve seed al vsz (Some m0) n = Some (Ok h')"
      by (simp add: reserve_null)
    ultimately have "\<exists>m'. h' = Some m' \<and> hash_inv seed m' \<and>
        info_capacity m' \<le> max (info_capacity m0) (2 * n)"
      by (rule reserve_capacity [OF _ n])
    then show ?thesis
      by (auto simp: hash_handle_inv_def)
  qed
qed

lemma empty_probe:
  "hash__get_idx hash__seed tbl_empty 1 = Some None"
  "hash__get_idx hash__seed tbl_one 1 = Some (Some 0)"
  using key_facts by (simp_all add: hash_eval fixture_defs tbl_empty_def tbl_one_def)

lemma put_empty:
  "hash_put hash__seed alloc_zero 8 (Some tbl_empty) 1 65 = Some (Ok (Some tbl_one))"
  using key_facts by (simp add: hash_eval fixture_defs tbl_empty_def tbl_one_def)

lemma put_null_one:
  "hash_put hash__seed alloc_zero 8 None 1 65 = Some (Ok (Some tbl_one))"
  using run_one by (simp split: option.splits res.splits)

lemma has_free_fixtures:
  "hash_has_free tbl_empty" "hash_has_free tbl_one" "hash_has_free tbl_tomb"
  "hash_has_free tbl_eleven"
  by (simp_all add: has_free_eval tbl_empty_def tbl_one_def tbl_tomb_def tbl_eleven_def
      upt_16 replicate_num)

lemma lookup_fixtures:
  "hash_lookup tbl_tomb 2 = Some 66" "hash_lookup tbl_tomb 1 = None"
  "hash_slot_of tbl_one 1 = Some 0" "hash_slot_of tbl_eleven 11 = None"
  by (simp_all add: hash_lookup_def slot_of_eval tbl_tomb_def tbl_one_def tbl_eleven_def
      upt_16 replicate_num)

lemma alloc_zero_total: "alloc_zero n \<noteq> None"
  by (simp add: alloc_zero_def)

subsection \<open>The byte count of an image\<close>

text \<open>Where the byte count does not wrap, the allocator is asked for exactly that count.\<close>

lemma malloc_exact:
  assumes "hash__image_bytes c vs < 2 ^ 64"
  shows "hash__malloc al c vs = al (hash__image_bytes c vs)"
proof -
  from assms have a: "1 * c < 2 ^ 64" "8 * c < 2 ^ 64" "1 * c + 8 * c < 2 ^ 64"
    "1 * c + 8 * c + 24 < 2 ^ 64" "vs * c < 2 ^ 64" "1 * c + 8 * c + 24 + vs * c < 2 ^ 64"
    by (simp_all add: hash__image_bytes_def)
  have "sz_add (sz_add (sz_add (sz_mul 1 c) (sz_mul 8 c)) 24) (sz_mul vs c) =
      1 * c + 8 * c + 24 + vs * c"
    by (simp only: sz_mul_eq [OF a(1)] sz_mul_eq [OF a(2)] sz_add_eq [OF a(3)]
        sz_add_eq [OF a(4)] sz_mul_eq [OF a(5)] sz_add_eq [OF a(6)])
  then show ?thesis
    by (simp only: hash__malloc_def Let_def hash__image_bytes_def)
qed

lemma image_bytes_ge: "c \<le> hash__image_bytes c vs"
  by (simp add: hash__image_bytes_def)

lemma true_cap_unique:
  fixes n :: nat
  assumes "n \<le> 2 ^ e" and "\<forall>e'<e. 2 ^ e' < n" and "n \<le> 2 ^ e0" and "\<forall>e'<e0. 2 ^ e' < n"
  shows "e = e0"
proof (rule ccontr)
  assume "e \<noteq> e0"
  then consider "e < e0" | "e0 < e"
    by (rule linorder_neqE_nat)
  then show False
  proof cases
    case 1
    with assms(4) have "2 ^ e < n" by simp
    with assms(1) show False by simp
  next
    case 2
    with assms(2) have "2 ^ e0 < n" by simp
    with assms(3) show False by simp
  qed
qed

lemma pow2_lt_64:
  assumes "(2 :: nat) ^ e < 2 ^ 64"
  shows "e \<le> 63"
proof -
  from assms have "e < 64"
    by (simp only: power_strict_increasing_iff rel_simps)
  then show ?thesis by simp
qed

lemma saturated_put_probe:
  "hash__put_slot hash__seed tbl_saturated 100 v = None"
  by (simp add: hash__put_slot_def saturated_probe)

section \<open>The claims of the specification\<close>

lemma put_slot_no_tomb:
  assumes inv: "hash_inv seed m" and put: "hash__put_slot seed m k v = Some m1"
    and nt: "hash_no_tomb m"
  shows "hash_no_tomb m1"
proof (cases "hash_slot_of m k")
  case (Some s)
  from put_slot_hit(1) [OF inv Some, of v] put nt show ?thesis
    by (auto simp: hash_no_tomb_def)
next
  case None
  from put_slot_Some_ok [OF inv put] None have "hash_has_free m" by simp
  from put_slot_miss [OF inv None this, of v] put
  obtain idx where idx: "idx < info_capacity m"
    "m1 = m\<lparr>meta := (meta m)[idx := hash__tag seed k], keys := (keys m)[idx := k],
               vals := (vals m)[idx := v], info_size := info_size m + 1\<rparr>"
    by auto
  from inv have len: "length (meta m) = info_capacity m"
    by (auto simp: hash_inv_def hash_struct_def hash_wf_def)
  show ?thesis
    unfolding hash_no_tomb_def
  proof (intro allI impI)
    fix p
    assume p: "p < info_capacity m1" and nf: "\<not> hash_is_full (meta m1 ! p)"
    show "hash_is_free (meta m1 ! p)"
    proof (cases "p = idx")
      case True
      with nf idx len tag_full [of seed k] show ?thesis by simp
    next
      case False
      with nf p idx nt show ?thesis
        by (simp add: hash_no_tomb_def)
    qed
  qed
qed

subsection \<open>Lookup after a history of insertions and deletions\<close>

text \<open>
  Claim C1: after every sequence of put, del and reserve from the null handle, \<open>get(K)\<close>
  returns the latest value of a key that is present and "absent" for a key that was never
  inserted or was deleted since. The code does not do this: the run below (sixteen
  insertions, their deletion, sixteen more insertions) ends in the image
  \<open>tbl_saturated\<close>, on which \<open>get\<close> returns neither "absent" nor anything else for key 0,
  deleted since its insertion, and for key 100, never inserted.
\<close>

theorem get_absent_never_returns:
  "hash_run hash__seed alloc_zero 8 None
       (put_all keys_low @ del_all keys_low @ put_all keys_high) = Some (Ok (Some tbl_saturated)) \<and>
   hash_get_val hash__seed (Some tbl_saturated) 0 = None \<and>
   hash_get_val hash__seed (Some tbl_saturated) 100 = None"
  by (simp add: run_saturated hash_get_val_def hash_get_def saturated_probe)

subsection \<open>Termination of the match probe\<close>

text \<open>
  Claim C2: in every state reachable by the public operations, \<open>size \<le> 3/4 \<times> capacity\<close>
  guarantees a Free byte, so that the match probe terminates for every key. The bound
  counts the Full slots only, and a deletion leaves a Tombstone, which is not Free: the
  reachable image \<open>tbl_saturated\<close> has size 16 and capacity 32, no Free byte, and the match
  probe for the absent key 100 does not terminate on it.
\<close>

theorem probe_without_free_byte:
  "hash_run hash__seed alloc_zero 8 None
       (put_all keys_low @ del_all keys_low @ put_all keys_high) = Some (Ok (Some tbl_saturated)) \<and>
   hash_size (Some tbl_saturated) = 16 \<and> hash_capacity (Some tbl_saturated) = 32 \<and>
   hash_size (Some tbl_saturated) * 4 \<le> hash_capacity (Some tbl_saturated) * 3 \<and>
   \<not> hash_has_free tbl_saturated \<and>
   hash__get_idx hash__seed tbl_saturated 100 = None"
  by (simp add: run_saturated saturated_no_free saturated_probe hash_size_def hash_capacity_def)
    (simp add: tbl_saturated_def)

subsection \<open>The null handle\<close>

text \<open>
  Claim C3, as stated: on the null handle \<open>get\<close> returns "absent", \<open>del\<close> returns false and
  \<open>free\<close> does nothing. The three functions read the header in front of the handle without
  testing it: on the null handle each of them is a fault.
\<close>

theorem null_handle_fault:
  "hash_get hash__seed (None :: nat handle) 1 = Some Fault \<and>
   hash_del hash__seed (None :: nat handle) 1 False = Some Fault \<and>
   hash_free (None :: nat handle) = Fault"
  by (simp add: hash_get_def hash_del_def hash_free_def)

text \<open>
  Claim C3, amended: on the null handle, size and capacity are zero, and \<open>put\<close> allocates a
  table of capacity 16 and inserts the pair (when the allocation succeeds; the handle
  returned holds exactly that pair); \<open>get\<close>, \<open>del\<close> and \<open>free\<close> do not accept the null
  handle, they dereference it.
\<close>

theorem null_handle:
  "hash_size (None :: 'v handle) = 0 \<and> hash_capacity (None :: 'v handle) = 0 \<and>
   hash_get seed (None :: 'v handle) k = Some Fault \<and>
   hash_del seed (None :: 'v handle) k fv = Some Fault \<and>
   hash_free (None :: 'v handle) = Fault \<and>
   (\<forall>blk. hash__malloc al 16 vsz = Some blk \<longrightarrow>
      (\<exists>m'. hash_put seed al vsz None k (v :: 'v) = Some (Ok (Some m')) \<and>
         info_capacity m' = 16 \<and> info_size m' = 1 \<and>
         hash_lookup m' = [k \<mapsto> v] \<and>
         (\<forall>k'. hash_get_val seed (Some m') k' = Some (Ok (if k' = k then Some v else None)))))"
proof -
  have "\<exists>m'. hash_put seed al vsz None k v = Some (Ok (Some m')) \<and>
         info_capacity m' = 16 \<and> info_size m' = 1 \<and>
         hash_lookup m' = [k \<mapsto> v] \<and>
         (\<forall>k'. hash_get_val seed (Some m') k' = Some (Ok (if k' = k then Some v else None)))"
    if blk: "hash__malloc al 16 vsz = Some blk" for blk
  proof -
    let ?m0 = "hash__image blk 16 0 vsz"
    note i0 = image_inv(1) [OF cap_ok_16, of seed blk vsz]
      image_inv(2) [OF cap_ok_16, of blk vsz] image_inv(3) [OF cap_ok_16, of blk vsz]
    have s0: "hash_slot_of ?m0 k = None"
      using i0(3) lookup_None_iff [of ?m0 k] by simp
    from put_slot_ok [OF i0(1), of k v] i0(2) s0
    obtain m1 where m1: "hash__put_slot seed ?m0 k v = Some m1" "hash_inv seed m1"
      "hash_lookup m1 = (hash_lookup ?m0)(k \<mapsto> v)" "info_capacity m1 = 16"
      "info_size m1 = 1"
      by (auto simp: hash__image_def)
    have "hash_no_tomb m1"
      by (rule put_slot_no_tomb [OF i0(1) m1(1) image_inv(4) [OF cap_ok_16]])
    moreover from m1(2) have "hash_struct seed m1"
      and "length (filter hash_is_full (meta m1)) = info_size m1"
      by (simp_all add: hash_inv_def)
    ultimately have free1: "hash_has_free m1"
      using m1(4,5) by (intro no_tomb_has_free) simp_all
    have put: "hash_put seed al vsz None k v = Some (Ok (Some m1))"
      using m1(1,4,5) by (simp add: put_null init_null [OF blk] hash_put_def sz_mul_def)
    have "hash_get_val seed (Some m1) k' = Some (Ok (if k' = k then Some v else None))" for k'
      using free1 by (simp add: get_val_eq [OF m1(2)] m1(3) i0(3))
    with put m1 i0(3) show ?thesis
      by auto
  qed
  then show ?thesis
    by (simp add: hash_size_def hash_capacity_def hash_get_def hash_del_def hash_free_def)
qed

theorem null_handle_witness:
  "hash__malloc alloc_zero 16 8 = Some (\<lambda>i. 0, \<lambda>i. 0) \<and>
   (\<exists>m'. hash_put hash__seed alloc_zero 8 None 1 (65 :: nat) = Some (Ok (Some m')) \<and>
      info_capacity m' = 16 \<and> info_size m' = 1 \<and>
      hash_get_val hash__seed (Some m') 1 = Some (Ok (Some 65)) \<and>
      hash_get_val hash__seed (Some m') 2 = Some (Ok None))"
  using null_handle [of hash__seed 1 False alloc_zero 8 65]
  by (simp add: malloc_zero) fastforce

subsection \<open>Insertion and the load factor\<close>

text \<open>
  Claim C4: \<open>put\<close> performs the insert or overwrite first, tests the load factor after the
  write, grows the table when \<open>size \<ge> (capacity / 4) \<times> 3\<close>, and the pair is visible
  through the handle returned. The code does not do this on the reachable image
  \<open>tbl_saturated\<close> (size 16, below the threshold 24 of capacity 32, and no Free byte):
  \<open>put\<close> of the absent key 100 starts with the match probe, which never returns, so that
  nothing is written, the load factor is never tested and no handle is returned.
\<close>

theorem put_absent_never_returns:
  "hash_run hash__seed alloc_zero 8 None
       (put_all keys_low @ del_all keys_low @ put_all keys_high) = Some (Ok (Some tbl_saturated)) \<and>
   hash_size (Some tbl_saturated) < (hash_capacity (Some tbl_saturated) div 4) * 3 \<and>
   hash__put_slot hash__seed tbl_saturated 100 1000 = None \<and>
   hash_put hash__seed alloc_zero 8 (Some tbl_saturated) 100 1000 = None"
  by (simp add: run_saturated hash_put_def saturated_put_probe hash_size_def hash_capacity_def)
    (simp add: tbl_saturated_def)

text \<open>
  Where the key is present or the image has a Free byte, \<open>put\<close> does write first and test
  afterwards. The image \<open>m1\<close> after the write holds the pair; when its size is at least
  \<open>(capacity / 4) \<times> 3\<close> and the allocation of the doubled image succeeds, the handle
  returned is the result of resizing \<open>m1\<close> to twice the capacity and the pair is read back
  through it; when that allocation fails, and when the size is below the threshold, the
  handle returned is \<open>m1\<close> itself. The byte count of the doubled image is assumed not to
  wrap.
\<close>

lemma put_with_free_byte:
  assumes inv: "hash_inv seed m"
    and ok: "hash_slot_of m k \<noteq> None \<or> hash_has_free m"
    and fits: "hash__image_bytes (2 * info_capacity m) (info_val_size m) < 2 ^ 64"
  shows "\<exists>m1. hash__put_slot seed m k v = Some m1 \<and>
     hash_lookup m1 = (hash_lookup m)(k \<mapsto> v) \<and>
     info_capacity m1 = info_capacity m \<and>
     info_size m1 = (if hash_slot_of m k = None then info_size m + 1 else info_size m) \<and>
     hash_get_val seed (Some m1) k = Some (Ok (Some v)) \<and>
     (if (info_capacity m div 4) * 3 \<le> info_size m1
      then (case al (hash__image_bytes (2 * info_capacity m) (info_val_size m)) of
              None \<Rightarrow> hash_put seed al vsz (Some m) k v = Some (Ok (Some m1))
            | Some blk \<Rightarrow>
                (\<exists>m'. hash__resize seed al m1 (2 * info_capacity m) = Some m' \<and>
                   hash_put seed al vsz (Some m) k v = Some (Ok (Some m')) \<and>
                   info_capacity m' = 2 * info_capacity m \<and> info_size m' = info_size m1 \<and>
                   hash_lookup m' = hash_lookup m1 \<and>
                   hash_get_val seed (Some m') k = Some (Ok (Some v))))
      else hash_put seed al vsz (Some m) k v = Some (Ok (Some m1)))"
proof -
  let ?c = "info_capacity m"
  let ?b = "hash__image_bytes (2 * ?c) (info_val_size m)"
  from put_slot_ok [OF inv ok, of v]
  obtain m1 where m1: "hash__put_slot seed m k v = Some m1" "hash_inv seed m1"
    "hash_lookup m1 = (hash_lookup m)(k \<mapsto> v)" "info_capacity m1 = ?c"
    "info_val_size m1 = info_val_size m"
    "info_size m1 = (if hash_slot_of m k = None then info_size m + 1 else info_size m)"
    by blast
  from inv have c: "hash__cap_ok ?c"
    by (auto simp: hash_inv_def hash_struct_def hash_wf_def)
  have "2 * ?c \<le> ?b"
    by (rule image_bytes_ge)
  with fits have cb: "?c < 2 ^ 63"
    by simp
  have lt: "sz_mul (info_capacity m1 div 4) 3 = (?c div 4) * 3"
    using load_test [OF c] m1(4) by simp
  have dc: "sz_mul (info_capacity m1) 2 = 2 * ?c"
    using double_cap [OF cb] m1(4) by simp
  have ml: "hash__malloc al (2 * ?c) (info_val_size m1) = al ?b"
    using malloc_exact [OF fits] m1(5) by simp
  have g1: "hash_get_val seed (Some m1) k = Some (Ok (Some v))"
    by (simp add: get_val_eq [OF m1(2)] m1(3))
  have grow_none: "hash_put seed al vsz (Some m) k v = Some (Ok (Some m1))"
    if "(?c div 4) * 3 \<le> info_size m1" "al ?b = None"
    using that ml resize_fail [of al "2 * ?c" m1 seed]
    by (simp add: hash_put_def m1(1) lt dc)
  have grow_some: "\<exists>m'. hash__resize seed al m1 (2 * ?c) = Some m' \<and>
             hash_put seed al vsz (Some m) k v = Some (Ok (Some m')) \<and>
             info_capacity m' = 2 * ?c \<and> info_size m' = info_size m1 \<and>
             hash_lookup m' = hash_lookup m1 \<and>
             hash_get_val seed (Some m') k = Some (Ok (Some v))"
    if grow: "(?c div 4) * 3 \<le> info_size m1" and blk: "al ?b = Some blk" for blk
  proof -
    from ml blk have mb: "hash__malloc al (2 * ?c) (info_val_size m1) = Some blk"
      by simp
    from resize_ok [OF m1(2) cap_ok_double [OF c cb] _ mb] m1(4)
    obtain m' where m': "hash__resize seed al m1 (2 * ?c) = Some m'" "hash_inv seed m'"
      "info_capacity m' = 2 * ?c" "info_size m' = info_size m1" "hash_lookup m' = hash_lookup m1"
      by auto
    have "hash_put seed al vsz (Some m) k v = Some (Ok (Some m'))"
      using grow by (simp add: hash_put_def m1(1) lt dc m'(1))
    moreover have "hash_get_val seed (Some m') k = Some (Ok (Some v))"
      by (simp add: get_val_eq [OF m'(2)] m'(5) m1(3))
    ultimately show ?thesis
      using m' by simp
  qed
  have stay: "hash_put seed al vsz (Some m) k v = Some (Ok (Some m1))"
    if "\<not> (?c div 4) * 3 \<le> info_size m1"
    using that by (simp add: hash_put_def m1(1) lt)
  show ?thesis
  proof (intro exI [of _ m1] conjI)
    show "if (?c div 4) * 3 \<le> info_size m1
      then (case al ?b of
              None \<Rightarrow> hash_put seed al vsz (Some m) k v = Some (Ok (Some m1))
            | Some blk \<Rightarrow>
                (\<exists>m'. hash__resize seed al m1 (2 * ?c) = Some m' \<and>
                   hash_put seed al vsz (Some m) k v = Some (Ok (Some m')) \<and>
                   info_capacity m' = 2 * ?c \<and> info_size m' = info_size m1 \<and>
                   hash_lookup m' = hash_lookup m1 \<and>
                   hash_get_val seed (Some m') k = Some (Ok (Some v))))
      else hash_put seed al vsz (Some m) k v = Some (Ok (Some m1))"
      using grow_none grow_some stay by (auto split: option.splits)
  qed (use m1 g1 in simp_all)
qed

lemma put_with_free_byte_example:
  "hash_inv hash__seed tbl_eleven \<and> hash_has_free tbl_eleven \<and>
   info_size tbl_eleven = 11 \<and> info_capacity tbl_eleven = 16 \<and>
   (\<exists>m1 m'. hash__put_slot hash__seed tbl_eleven 11 110 = Some m1 \<and> info_size m1 = 12 \<and>
      hash__resize hash__seed alloc_zero m1 32 = Some m' \<and>
      hash_put hash__seed alloc_zero 8 (Some tbl_eleven) 11 110 = Some (Ok (Some m')) \<and>
      info_capacity m' = 32 \<and> info_size m' = 12 \<and>
      hash_get_val hash__seed (Some m') 11 = Some (Ok (Some 110)))"
proof -
  have sz: "info_size tbl_eleven = 11" "info_capacity tbl_eleven = 16"
    "info_val_size tbl_eleven = 8"
    by (simp_all add: tbl_eleven_def)
  have fits: "hash__image_bytes (2 * info_capacity tbl_eleven) (info_val_size tbl_eleven) < 2 ^ 64"
    by (simp add: sz hash__image_bytes_def)
  have ok: "hash_slot_of tbl_eleven 11 \<noteq> None \<or> hash_has_free tbl_eleven"
    using has_free_fixtures(4) by simp
  from put_with_free_byte [of hash__seed tbl_eleven 11 110 alloc_zero 8, OF inv_eleven ok fits]
  obtain m1 where m1: "hash__put_slot hash__seed tbl_eleven 11 110 = Some m1"
    and s1: "info_size m1 =
      (if hash_slot_of tbl_eleven 11 = None then info_size tbl_eleven + 1 else info_size tbl_eleven)"
    and br: "if (info_capacity tbl_eleven div 4) * 3 \<le> info_size m1
      then (case alloc_zero (hash__image_bytes (2 * info_capacity tbl_eleven)
                (info_val_size tbl_eleven)) of
              None \<Rightarrow> hash_put hash__seed alloc_zero 8 (Some tbl_eleven) 11 110 = Some (Ok (Some m1))
            | Some blk \<Rightarrow>
                (\<exists>m'. hash__resize hash__seed alloc_zero m1 (2 * info_capacity tbl_eleven) = Some m' \<and>
                   hash_put hash__seed alloc_zero 8 (Some tbl_eleven) 11 110 = Some (Ok (Some m')) \<and>
                   info_capacity m' = 2 * info_capacity tbl_eleven \<and> info_size m' = info_size m1 \<and>
                   hash_lookup m' = hash_lookup m1 \<and>
                   hash_get_val hash__seed (Some m') 11 = Some (Ok (Some 110))))
      else hash_put hash__seed alloc_zero 8 (Some tbl_eleven) 11 110 = Some (Ok (Some m1))"
    by blast
  from s1 have s12: "info_size m1 = 12"
    by (simp add: lookup_fixtures(4) sz)
  with br obtain m' where "hash__resize hash__seed alloc_zero m1 32 = Some m'"
    "hash_put hash__seed alloc_zero 8 (Some tbl_eleven) 11 110 = Some (Ok (Some m'))"
    "info_capacity m' = 32" "info_size m' = 12"
    "hash_get_val hash__seed (Some m') 11 = Some (Ok (Some 110))"
    by (auto simp: sz alloc_zero_def)
  with m1 s12 inv_eleven has_free_fixtures(4) sz show ?thesis
    by blast
qed

subsection \<open>The first growth\<close>

text \<open>
  Claim C5, as stated: after the insertion of the keys 0..11 (value = key \<times> 10) from the
  empty table the capacity is still 16. The twelfth insertion brings the size to
  \<open>12 = (16 / 4) \<times> 3\<close>, the test of \<open>put\<close> is \<open>size \<ge> (capacity / 4) \<times> 3\<close>, and the table
  has grown: the capacity is 32.
\<close>

theorem twelve_keys_capacity:
  "hash_run hash__seed alloc_zero 8 None (put_all [0..<12]) = Some (Ok (Some tbl_twelve)) \<and>
   hash_capacity (Some tbl_twelve) = 32 \<and> hash_capacity (Some tbl_twelve) \<noteq> 16"
  by (simp add: run_twelve hash_capacity_def tbl_twelve_def)

text \<open>
  Claim C5, amended: after the insertion of the keys 0..11 (value = key \<times> 10) from the
  empty table, all twelve keys are retrievable, the size is 12 and the capacity is 32.
\<close>

theorem twelve_keys:
  "hash_run hash__seed alloc_zero 8 None (put_all [0..<12]) = Some (Ok (Some tbl_twelve)) \<and>
   list_all (\<lambda>k. hash_get_val hash__seed (Some tbl_twelve) (of_nat k) = Some (Ok (Some (k * 10))))
     [0..<12] \<and>
   hash_size (Some tbl_twelve) = 12 \<and> hash_capacity (Some tbl_twelve) = 32"
proof -
  have inv: "hash_inv hash__seed tbl_twelve"
    using run_inv [OF handle_inv_null _ _ run_twelve, of 16]
    by (simp add: hash_handle_inv_def hash_capacity_def fixture_defs)
  have "list_all (\<lambda>k. hash_lookup tbl_twelve (of_nat k) = Some (k * 10)) [0..<12]"
    by (simp add: hash_lookup_def slot_of_eval tbl_twelve_def upt_32 upt_12 replicate_num)
  then have "list_all (\<lambda>k. hash_get_val hash__seed (Some tbl_twelve) (of_nat k) =
      Some (Ok (Some (k * 10)))) [0..<12]"
    by (simp add: get_val_eq [OF inv] list_all_iff)
  then show ?thesis
    by (simp add: run_twelve hash_size_def hash_capacity_def) (simp add: tbl_twelve_def)
qed

subsection \<open>The probe-path invariant\<close>

text \<open>
  Claim C6: put, del, reserve and growth keep every Full slot on the probe sequence of its
  own key: the probe from the home group of \<open>keys[i]\<close> reaches slot \<open>i\<close> before any Free
  byte (\<open>hash_probe_inv\<close>). The property is proved as a part of \<open>hash_inv\<close>, the invariant of
  the images (the null handle and the fresh table satisfy it): each operation that returns
  keeps \<open>hash_inv\<close>, and \<open>hash_inv\<close> contains the probe-path property. The capacities are
  those a doubling keeps in \<^verbatim>\<open>size_t\<close>.
\<close>

theorem operations_keep_probe_paths:
  assumes inv: "hash_handle_inv seed h" and cb: "hash_capacity h < 2 ^ 63"
  shows "(hash_put seed al vsz h k v = Some (Ok h') \<longrightarrow>
            hash_handle_inv seed h' \<and> hash_probe_inv seed h') \<and>
         (hash_del seed h k fv = Some (Ok (r, h', fr)) \<longrightarrow>
            hash_handle_inv seed h' \<and> hash_probe_inv seed h') \<and>
         (n \<le> 2 ^ 63 \<and> hash_reserve seed al vsz h n = Some (Ok h') \<longrightarrow>
            hash_handle_inv seed h' \<and> hash_probe_inv seed h') \<and>
         (h = Some m \<and> hash__cap_ok nc \<and> info_capacity m \<le> nc \<and>
          hash__resize seed al m nc = Some m' \<longrightarrow>
            hash_inv seed m' \<and> hash_probe_inv seed (Some m'))"
proof (intro conjI impI)
  assume "hash_put seed al vsz h k v = Some (Ok h')"
  from put_handle_inv [OF inv cb this]
  show "hash_handle_inv seed h'" and "hash_probe_inv seed h'"
    by (simp_all add: handle_inv_probe)
next
  assume "hash_del seed h k fv = Some (Ok (r, h', fr))"
  from del_handle_inv [OF inv this]
  show "hash_handle_inv seed h'" and "hash_probe_inv seed h'"
    by (simp_all add: handle_inv_probe)
next
  assume "n \<le> 2 ^ 63 \<and> hash_reserve seed al vsz h n = Some (Ok h')"
  then have "hash_handle_inv seed h'"
    using reserve_handle_inv [OF inv] by blast
  then show "hash_handle_inv seed h'" and "hash_probe_inv seed h'"
    by (simp_all add: handle_inv_probe)
next
  assume a: "h = Some m \<and> hash__cap_ok nc \<and> info_capacity m \<le> nc \<and>
    hash__resize seed al m nc = Some m'"
  with inv have "hash_inv seed m"
    by (simp add: hash_handle_inv_def)
  with a have "hash_inv seed m'"
    using resize_inv by blast
  then show "hash_inv seed m'" and "hash_probe_inv seed (Some m')"
    using handle_inv_probe [of seed "Some m'"] by (simp_all add: hash_handle_inv_def)
qed

theorem operations_keep_probe_paths_witness:
  "\<exists>h2 h3 m4.
     hash_put hash__seed alloc_zero 8 (Some tbl_empty) 1 65 = Some (Ok (Some tbl_one)) \<and>
     hash_probe_inv hash__seed (Some tbl_one) \<and>
     hash_del hash__seed (Some tbl_one) 1 False = Some (Ok (True, h2, [])) \<and>
     hash_probe_inv hash__seed h2 \<and>
     hash_reserve hash__seed alloc_zero 8 (Some tbl_one) 100 = Some (Ok h3) \<and>
     hash_probe_inv hash__seed h3 \<and>
     hash__resize hash__seed alloc_zero tbl_one 32 = Some m4 \<and>
     hash_probe_inv hash__seed (Some m4)"
proof -
  have i0: "hash_handle_inv hash__seed (Some tbl_empty)"
    and i1: "hash_handle_inv hash__seed (Some tbl_one)"
    using inv_empty inv_one by (simp_all add: hash_handle_inv_def)
  have c0: "hash_capacity (Some tbl_empty) < 2 ^ 63"
    and c1: "hash_capacity (Some tbl_one) < 2 ^ 63" and c1': "info_capacity tbl_one \<le> 32"
    by (simp_all add: hash_capacity_def tbl_empty_def tbl_one_def)
  from del_hit(1) [OF inv_one lookup_fixtures(3), of False]
  obtain h2 where d: "hash_del hash__seed (Some tbl_one) 1 False = Some (Ok (True, h2, []))"
    by simp
  have cn: "info_capacity tbl_one < 100" "(100 :: nat) \<le> 2 ^ 63"
    by (simp_all add: tbl_one_def)
  from reserve_grow [of hash__seed tbl_one 100 alloc_zero 8, OF inv_one cn alloc_zero_total]
  obtain h3 where r: "hash_reserve hash__seed alloc_zero 8 (Some tbl_one) 100 = Some (Ok h3)"
    by blast
  from resize_ok [OF inv_one cap_ok_32 c1' malloc_zero]
  obtain m4 where g: "hash__resize hash__seed alloc_zero tbl_one 32 = Some m4"
    by blast
  from operations_keep_probe_paths [OF i0 c0, where al = alloc_zero and vsz = 8 and k = 1
      and v = 65 and h' = "Some tbl_one"] put_empty
  have "hash_probe_inv hash__seed (Some tbl_one)"
    by blast
  moreover
  from operations_keep_probe_paths [OF i1 c1, where k = 1 and fv = False and r = True
      and h' = h2 and fr = "[]"] d
  have "hash_probe_inv hash__seed h2"
    by blast
  moreover
  from operations_keep_probe_paths [OF i1 c1, where al = alloc_zero and vsz = 8 and n = 100
      and h' = h3] r
  have "hash_probe_inv hash__seed h3"
    by simp
  moreover
  from operations_keep_probe_paths [OF i1 c1, where m = tbl_one and nc = 32
      and al = alloc_zero and m' = m4] g cap_ok_32 c1'
  have "hash_probe_inv hash__seed (Some m4)"
    by simp
  ultimately show ?thesis
    using put_empty d r g by blast
qed

subsection \<open>Growth\<close>

text \<open>
  Claim C7: growth to a larger power-of-two capacity keeps the key\<rightarrow>value map. After
  \<open>hash__resize\<close> to \<open>nc\<close> (the byte count of the new image not wrapping in \<^verbatim>\<open>size_t\<close>
  and its allocation succeeding) the size is the same, the new image maps every key to what
  the old one did (so a key is present after the resize exactly when it was before, with
  the same value, which is what \<open>get\<close> returns), and no metadata byte of the new image is a
  Tombstone.
\<close>

theorem resize_keeps_contents:
  assumes inv: "hash_inv seed m" and nc: "hash__cap_ok nc" and cap: "info_capacity m < nc"
    and fits: "hash__image_bytes nc (info_val_size m) < 2 ^ 64"
    and al: "al (hash__image_bytes nc (info_val_size m)) = Some blk"
  shows "\<exists>m'. hash__resize seed al m nc = Some m' \<and> info_capacity m' = nc \<and>
     info_size m' = info_size m \<and> hash_lookup m' = hash_lookup m \<and>
     (\<forall>k. hash_get_val seed (Some m') k = Some (Ok (hash_lookup m k))) \<and>
     (\<forall>i<nc. meta m' ! i \<noteq> HASH__TOMB)"
proof -
  from cap have le: "info_capacity m \<le> nc" by simp
  from al have mb: "hash__malloc al nc (info_val_size m) = Some blk"
    by (simp add: malloc_exact [OF fits])
  from resize_ok [OF inv nc le mb] obtain m' where m': "hash__resize seed al m nc = Some m'"
    "hash_inv seed m'" "hash_no_tomb m'" "info_capacity m' = nc" "info_size m' = info_size m"
    "hash_lookup m' = hash_lookup m" "info_size m < nc \<longrightarrow> hash_has_free m'"
    by blast
  from inv_size_bound(1) [OF inv] cap m'(7) have free: "hash_has_free m'"
    by simp
  have "hash_get_val seed (Some m') k = Some (Ok (hash_lookup m k))" for k
    using free by (simp add: get_val_eq [OF m'(2)] m'(6) split: option.splits)
  moreover have "meta m' ! i \<noteq> HASH__TOMB" if "i < nc" for i
    using no_tomb_bytes [OF m'(3)] that m'(4) by simp
  ultimately show ?thesis
    using m' by blast
qed

theorem resize_keeps_contents_witness:
  "hash_inv hash__seed tbl_tomb \<and> meta tbl_tomb ! 0 = HASH__TOMB \<and>
   hash__image_bytes 32 (info_val_size tbl_tomb) = 568 \<and>
   alloc_zero 568 = Some (\<lambda>i. 0, \<lambda>i. 0) \<and>
   (\<exists>m'. hash__resize hash__seed alloc_zero tbl_tomb 32 = Some m' \<and> info_capacity m' = 32 \<and>
      info_size m' = 1 \<and>
      hash_get_val hash__seed (Some m') 2 = Some (Ok (Some 66)) \<and>
      hash_get_val hash__seed (Some m') 1 = Some (Ok None) \<and>
      (\<forall>i<32. meta m' ! i \<noteq> HASH__TOMB))"
proof -
  have c: "info_capacity tbl_tomb < 32" and s: "info_size tbl_tomb = 1"
    and t: "meta tbl_tomb ! 0 = HASH__TOMB"
    and b: "hash__image_bytes 32 (info_val_size tbl_tomb) = 568"
    by (simp_all add: tbl_tomb_def HASH__TOMB_def hash__image_bytes_def)
  have fits: "hash__image_bytes 32 (info_val_size tbl_tomb) < 2 ^ 64"
    by (simp add: b)
  have al: "alloc_zero (hash__image_bytes 32 (info_val_size tbl_tomb)) = Some (\<lambda>i. 0, \<lambda>i. 0)"
    and al': "alloc_zero 568 = Some (\<lambda>i. 0, \<lambda>i. 0)"
    by (simp_all add: alloc_zero_def)
  from resize_keeps_contents [of hash__seed tbl_tomb 32 alloc_zero "(\<lambda>i. 0, \<lambda>i. 0)",
      OF inv_tomb cap_ok_32 c fits al] lookup_fixtures(1,2) s
  have "\<exists>m'. hash__resize hash__seed alloc_zero tbl_tomb 32 = Some m' \<and> info_capacity m' = 32 \<and>
      info_size m' = 1 \<and>
      hash_get_val hash__seed (Some m') 2 = Some (Ok (Some 66)) \<and>
      hash_get_val hash__seed (Some m') 1 = Some (Ok None) \<and>
      (\<forall>i<32. meta m' ! i \<noteq> HASH__TOMB)"
    by auto
  with inv_tomb t b al' show ?thesis
    by blast
qed

subsection \<open>Deletion\<close>

text \<open>
  Claim C8: on a non-null handle \<open>del(K)\<close> returns true exactly when \<open>K\<close> is present; on an
  absent key it returns false, and after the deletion of a present key \<open>get(K)\<close> returns
  "absent". The code does not do this on the reachable image \<open>tbl_saturated\<close>, which has no
  Free byte: \<open>del\<close> of the absent key 100 never returns, and after the deletion of the
  present key 1 (which returns true and leaves size 15) \<open>get\<close> of that key never returns.
\<close>

theorem del_absent_never_returns:
  "hash_run hash__seed alloc_zero 8 None
       (put_all keys_low @ del_all keys_low @ put_all keys_high) = Some (Ok (Some tbl_saturated)) \<and>
   hash_del hash__seed (Some tbl_saturated) 100 False = None \<and>
   hash_del hash__seed (Some tbl_saturated) 1 False = Some (Ok (True, Some tbl_saturated_del, [])) \<and>
   hash_size (Some tbl_saturated_del) = 15 \<and>
   hash_get hash__seed (Some tbl_saturated_del) 1 = None"
proof -
  have "tbl_saturated\<lparr>meta := (meta tbl_saturated)[16 := HASH__TOMB],
      info_size := sz_sub (info_size tbl_saturated) 1\<rparr> = tbl_saturated_del"
    by (simp add: tbl_saturated_def tbl_saturated_del_def HASH__TOMB_def sz_sub_def replicate_num)
  then show ?thesis
    by (simp add: run_saturated hash_del_def hash_get_def saturated_probe saturated_del_probe
        hash_size_def)
      (simp add: tbl_saturated_del_def)
qed

subsection \<open>Reserve\<close>

text \<open>
  Claim C9, as stated: \<open>reserve(h, n)\<close> does nothing when \<open>n \<le> capacity(h)\<close>. The capacity of
  the null handle is 0, and \<open>reserve\<close> of 0 on the null handle allocates the empty table of
  capacity 16.
\<close>

theorem reserve_null_allocates:
  "hash_capacity (None :: nat handle) = 0 \<and>
   hash_reserve hash__seed alloc_zero 8 None 0 = Some (Ok (Some tbl_empty)) \<and>
   hash_capacity (Some tbl_empty) = 16"
  by (simp add: hash_reserve_def hash__init_def malloc_zero image_16 HASH__START_CAPACITY_def
      hash_capacity_def tbl_empty_def)

text \<open>
  Claim C9, amended: on a non-null handle \<open>reserve(h, n)\<close> does nothing when
  \<open>n \<le> capacity(h)\<close>. When \<open>capacity(h) < n\<close>, let \<open>c = 2\<^sup>e\<close> be the smallest power of two
  \<open>\<ge> n\<close>: if the byte count of an image of capacity \<open>c\<close>, \<open>(9 + val_size) \<times> c + 24\<close>, fits
  in \<^verbatim>\<open>size_t\<close> and the allocation succeeds, \<open>reserve\<close> grows the table to capacity \<open>c\<close>,
  the metadata of the new image being all Free before the rehash, and every present
  key\<rightarrow>value pair is kept (no other key is present). A null handle is first replaced by an
  empty table of capacity 16 (when that allocation succeeds) and then treated in the same
  way.
\<close>

theorem reserve_grows:
  assumes inv: "hash_inv seed m"
  shows "(n \<le> info_capacity m \<longrightarrow> hash_reserve seed al vsz (Some m) n = Some (Ok (Some m))) \<and>
    (info_capacity m < n \<and> n \<le> 2 ^ e \<and> (\<forall>e'<e. 2 ^ e' < n) \<and>
     hash__image_bytes (2 ^ e) (info_val_size m) < 2 ^ 64 \<and>
     al (hash__image_bytes (2 ^ e) (info_val_size m)) = Some blk \<longrightarrow>
       (\<exists>m'. meta (hash__image blk (2 ^ e) (info_size m) (info_val_size m)) =
            replicate (2 ^ e) HASH__FREE \<and>
          hash__rehash seed m (hash__image blk (2 ^ e) (info_size m) (info_val_size m)) = Some m' \<and>
          hash_reserve seed al vsz (Some m) n = Some (Ok (Some m')) \<and>
          info_capacity m' = 2 ^ e \<and> info_size m' = info_size m \<and>
          hash_lookup m' = hash_lookup m \<and>
          (\<forall>k. hash_get_val seed (Some m') k = Some (Ok (hash_lookup m k))))) \<and>
    (hash__image_bytes 16 vsz < 2 ^ 64 \<and> al (hash__image_bytes 16 vsz) = Some blk0 \<longrightarrow>
       hash__init al vsz None = Some (hash__image blk0 16 0 vsz) \<and>
       hash_reserve seed al vsz None n =
         hash_reserve seed al vsz (Some (hash__image blk0 16 0 vsz)) n)"
proof (intro conjI impI)
  assume "n \<le> info_capacity m"
  then show "hash_reserve seed al vsz (Some m) n = Some (Ok (Some m))"
    by (rule reserve_noop)
next
  let ?c = "info_capacity m" and ?vs = "info_val_size m"
  assume a: "?c < n \<and> n \<le> 2 ^ e \<and> (\<forall>e'<e. 2 ^ e' < n) \<and>
     hash__image_bytes (2 ^ e) ?vs < 2 ^ 64 \<and> al (hash__image_bytes (2 ^ e) ?vs) = Some blk"
  then have lt: "?c < n" and ne: "n \<le> 2 ^ e" and least: "\<forall>e'<e. 2 ^ e' < n"
    and fits: "hash__image_bytes (2 ^ e) ?vs < 2 ^ 64"
    and blk: "al (hash__image_bytes (2 ^ e) ?vs) = Some blk"
    by simp_all
  from inv have c: "hash__cap_ok ?c"
    by (auto simp: hash_inv_def hash_struct_def hash_wf_def)
  have "(2 :: nat) ^ e \<le> hash__image_bytes (2 ^ e) ?vs"
    by (rule image_bytes_ge)
  with fits have "(2 :: nat) ^ e < 2 ^ 64"
    by simp
  then have e63: "e \<le> 63"
    by (rule pow2_lt_64)
  then have "(2 :: nat) ^ e \<le> 2 ^ 63"
    by (intro power_increasing) simp_all
  with ne have n63: "n \<le> 2 ^ 63"
    by simp
  from reserve_true_cap_result [OF n63] obtain e0 where e0: "e0 \<le> 63"
    "hash_reserve_true_cap 1 n = Some (2 ^ e0)" "n \<le> 2 ^ e0" "\<forall>e'<e0. 2 ^ e' < n"
    by blast
  have "e0 = e"
    by (rule true_cap_unique [OF e0(3,4) ne least])
  with e0(2) have tc: "hash_reserve_true_cap 1 n = Some (2 ^ e)"
    by simp
  have ce: "hash__cap_ok (2 ^ e)"
    by (rule reserve_cap_ok [OF c lt ne e63])
  have le: "?c \<le> 2 ^ e"
    using lt ne by simp
  from blk have mb: "hash__malloc al (2 ^ e) ?vs = Some blk"
    by (simp add: malloc_exact [OF fits])
  from resize_ok [OF inv ce le mb]
  obtain m' where m': "hash__resize seed al m (2 ^ e) = Some m'" "hash_inv seed m'"
    "info_capacity m' = 2 ^ e" "info_size m' = info_size m" "hash_lookup m' = hash_lookup m"
    "info_size m < 2 ^ e \<longrightarrow> hash_has_free m'"
    by blast
  from inv_size_bound(1) [OF inv] lt ne m'(6) have free: "hash_has_free m'"
    by simp
  have rh: "hash__rehash seed m (hash__image blk (2 ^ e) (info_size m) ?vs) = Some m'"
    using m'(1) mb by (simp add: hash__resize_def Let_def)
  have res: "hash_reserve seed al vsz (Some m) n = Some (Ok (Some m'))"
    by (simp add: reserve_unfold [OF lt] tc m'(1) del: One_nat_def)
  have "hash_get_val seed (Some m') k = Some (Ok (hash_lookup m k))" for k
    using free by (simp add: get_val_eq [OF m'(2)] m'(5) split: option.splits)
  moreover have "meta (hash__image blk (2 ^ e) (info_size m) ?vs) = replicate (2 ^ e) HASH__FREE"
    by (simp add: hash__image_def)
  ultimately show "\<exists>m'. meta (hash__image blk (2 ^ e) (info_size m) ?vs) =
            replicate (2 ^ e) HASH__FREE \<and>
          hash__rehash seed m (hash__image blk (2 ^ e) (info_size m) ?vs) = Some m' \<and>
          hash_reserve seed al vsz (Some m) n = Some (Ok (Some m')) \<and>
          info_capacity m' = 2 ^ e \<and> info_size m' = info_size m \<and>
          hash_lookup m' = hash_lookup m \<and>
          (\<forall>k. hash_get_val seed (Some m') k = Some (Ok (hash_lookup m k)))"
    using rh res m' by blast
next
  assume a: "hash__image_bytes 16 vsz < 2 ^ 64 \<and> al (hash__image_bytes 16 vsz) = Some blk0"
  then have mb: "hash__malloc al 16 vsz = Some blk0"
    by (simp add: malloc_exact)
  then show "hash__init al vsz None = Some (hash__image blk0 16 0 vsz)"
    by (rule init_null)
  from mb show "hash_reserve seed al vsz None n =
      hash_reserve seed al vsz (Some (hash__image blk0 16 0 vsz)) n"
    by (simp add: reserve_null init_null)
qed

theorem reserve_grows_witness:
  "hash_inv hash__seed tbl_one \<and> info_capacity tbl_one = 16 \<and>
   hash_reserve hash__seed alloc_zero 8 (Some tbl_one) 16 = Some (Ok (Some tbl_one)) \<and>
   hash__image_bytes 128 (info_val_size tbl_one) = 2200 \<and>
   alloc_zero 2200 = Some (\<lambda>i. 0, \<lambda>i. 0) \<and>
   (\<exists>m'. hash_reserve hash__seed alloc_zero 8 (Some tbl_one) 100 = Some (Ok (Some m')) \<and>
      info_capacity m' = 128 \<and> info_size m' = 1 \<and>
      hash_get_val hash__seed (Some m') 1 = Some (Ok (Some 65)) \<and>
      hash_get_val hash__seed (Some m') 2 = Some (Ok None)) \<and>
   hash_reserve hash__seed alloc_zero 8 None 100 =
     hash_reserve hash__seed alloc_zero 8 (Some tbl_empty) 100"
proof -
  have c: "info_capacity tbl_one = 16" and s: "info_size tbl_one = 1"
    and b: "hash__image_bytes 128 (info_val_size tbl_one) = 2200"
    and b7: "hash__image_bytes (2 ^ 7) (info_val_size tbl_one) = 2200"
    by (simp_all add: tbl_one_def hash__image_bytes_def)
  have l: "hash_lookup tbl_one 1 = Some 65" "hash_lookup tbl_one 2 = None"
    by (simp_all add: hash_lookup_def slot_of_eval tbl_one_def upt_16 replicate_num)
  have al: "alloc_zero x = Some (\<lambda>i. 0, \<lambda>i. 0)" for x
    by (simp add: alloc_zero_def)
  have least: "\<forall>e'<7. (2 :: nat) ^ e' < 100"
  proof (intro allI impI)
    fix e' :: nat
    assume "e' < 7"
    then have "(2 :: nat) ^ e' \<le> 2 ^ 6"
      by (intro power_increasing) simp_all
    then show "(2 :: nat) ^ e' < 100"
      by simp
  qed
  note th16 = reserve_grows [where seed = hash__seed and m = tbl_one and n = 16
      and al = alloc_zero and vsz = 8, OF inv_one]
  note th = reserve_grows [where seed = hash__seed and m = tbl_one and n = 100
      and al = alloc_zero and vsz = 8 and e = 7 and blk = "(\<lambda>i. 0, \<lambda>i. 0)"
      and ?blk0.0 = "(\<lambda>i. 0, \<lambda>i. 0)", OF inv_one]
  have e0: "hash_reserve hash__seed alloc_zero 8 (Some tbl_one) 16 = Some (Ok (Some tbl_one))"
    using th16 c by simp
  have prem: "info_capacity tbl_one < 100 \<and> (100 :: nat) \<le> 2 ^ 7 \<and> (\<forall>e'<7. (2 :: nat) ^ e' < 100) \<and>
     hash__image_bytes (2 ^ 7) (info_val_size tbl_one) < 2 ^ 64 \<and>
     alloc_zero (hash__image_bytes (2 ^ 7) (info_val_size tbl_one)) = Some (\<lambda>i. 0, \<lambda>i. 0)"
    using least by (simp add: c b b7 al)
  with th obtain m' where m':
    "hash_reserve hash__seed alloc_zero 8 (Some tbl_one) 100 = Some (Ok (Some m'))"
    "info_capacity m' = 2 ^ 7" "info_size m' = info_size tbl_one"
    "\<forall>k. hash_get_val hash__seed (Some m') k = Some (Ok (hash_lookup tbl_one k))"
    by blast
  then have e1: "\<exists>m'. hash_reserve hash__seed alloc_zero 8 (Some tbl_one) 100 = Some (Ok (Some m')) \<and>
      info_capacity m' = 128 \<and> info_size m' = 1 \<and>
      hash_get_val hash__seed (Some m') 1 = Some (Ok (Some 65)) \<and>
      hash_get_val hash__seed (Some m') 2 = Some (Ok None)"
    by (simp add: s l)
  have prem0: "hash__image_bytes 16 8 < 2 ^ 64 \<and>
      alloc_zero (hash__image_bytes 16 8) = Some (\<lambda>i. 0, \<lambda>i. 0)"
    by (simp add: hash__image_bytes_def al)
  with th have "hash_reserve hash__seed alloc_zero 8 None 100 =
     hash_reserve hash__seed alloc_zero 8 (Some (hash__image (\<lambda>i. 0, \<lambda>i. 0) 16 0 8)) 100"
    by blast
  then have e2: "hash_reserve hash__seed alloc_zero 8 None 100 =
     hash_reserve hash__seed alloc_zero 8 (Some tbl_empty) 100"
    by (simp add: image_16 tbl_empty_def)
  from inv_one c e0 b al e1 e2 show ?thesis
    by blast
qed

subsection \<open>The frame of a deletion\<close>

text \<open>
  Claim C10: a deletion with the cascade flag unset, of a key that the probe finds at index
  \<open>i\<close>, changes the metadata byte at \<open>i\<close> and the size field and nothing else: the capacity,
  the value width, every other metadata byte, the whole array of keys and the whole array
  of values (the key and the value of slot \<open>i\<close> included) are those of the image before,
  and nothing is handed to \<^verbatim>\<open>free\<close>. A present key of an image satisfying the invariant is
  found by the probe, at its slot.
\<close>

theorem del_frame:
  "(hash__get_idx seed m k = Some (Some i) \<longrightarrow>
      (\<exists>m'. hash_del seed (Some m) k False = Some (Ok (True, Some m', [])) \<and>
         meta m' = (meta m)[i := HASH__TOMB] \<and>
         (\<forall>j. j \<noteq> i \<longrightarrow> meta m' ! j = meta m ! j) \<and>
         info_size m' = sz_sub (info_size m) 1 \<and>
         info_capacity m' = info_capacity m \<and> info_val_size m' = info_val_size m \<and>
         keys m' = keys m \<and> vals m' = vals m)) \<and>
   (hash_inv seed m \<and> hash_slot_of m k = Some i \<longrightarrow>
      hash__get_idx seed m k = Some (Some i) \<and> 0 < info_size m)"
proof (intro conjI impI)
  assume "hash__get_idx seed m k = Some (Some i)"
  then show "\<exists>m'. hash_del seed (Some m) k False = Some (Ok (True, Some m', [])) \<and>
         meta m' = (meta m)[i := HASH__TOMB] \<and>
         (\<forall>j. j \<noteq> i \<longrightarrow> meta m' ! j = meta m ! j) \<and>
         info_size m' = sz_sub (info_size m) 1 \<and>
         info_capacity m' = info_capacity m \<and> info_val_size m' = info_val_size m \<and>
         keys m' = keys m \<and> vals m' = vals m"
    by (simp add: hash_del_def)
next
  assume a: "hash_inv seed m \<and> hash_slot_of m k = Some i"
  then have st: "hash_struct seed m"
    by (simp add: hash_inv_def)
  from a show "hash__get_idx seed m k = Some (Some i)"
    by (simp add: get_idx_eq [OF st])
  from a del_hit(4) [of seed m k i] show "0 < info_size m"
    by simp
qed

theorem del_frame_witness:
  "hash_inv hash__seed tbl_one \<and> hash_slot_of tbl_one 1 = Some 0 \<and>
   hash__get_idx hash__seed tbl_one 1 = Some (Some 0) \<and>
   (\<exists>m'. hash_del hash__seed (Some tbl_one) 1 False = Some (Ok (True, Some m', [])) \<and>
      meta m' = (meta tbl_one)[0 := HASH__TOMB] \<and> info_size m' = 0 \<and>
      info_capacity m' = 16 \<and> info_val_size m' = 8 \<and>
      keys m' = keys tbl_one \<and> vals m' = vals tbl_one \<and> keys m' ! 0 = 1 \<and> vals m' ! 0 = 65)"
proof -
  note th = del_frame [of hash__seed tbl_one 1 0]
  from th inv_one lookup_fixtures(3)
  have g: "hash__get_idx hash__seed tbl_one 1 = Some (Some 0)"
    by simp
  with th obtain m' where
    "hash_del hash__seed (Some tbl_one) 1 False = Some (Ok (True, Some m', []))"
    "meta m' = (meta tbl_one)[0 := HASH__TOMB]" "info_size m' = sz_sub (info_size tbl_one) 1"
    "info_capacity m' = info_capacity tbl_one" "info_val_size m' = info_val_size tbl_one"
    "keys m' = keys tbl_one" "vals m' = vals tbl_one"
    by blast
  then have "\<exists>m'. hash_del hash__seed (Some tbl_one) 1 False = Some (Ok (True, Some m', [])) \<and>
      meta m' = (meta tbl_one)[0 := HASH__TOMB] \<and> info_size m' = 0 \<and>
      info_capacity m' = 16 \<and> info_val_size m' = 8 \<and>
      keys m' = keys tbl_one \<and> vals m' = vals tbl_one \<and> keys m' ! 0 = 1 \<and> vals m' ! 0 = 65"
    by (simp add: tbl_one_def sz_sub_def)
  with inv_one lookup_fixtures(3) g show ?thesis
    by blast
qed

end
